theory Spec2Isabelle
  imports Complex_Main "HOL-Library.Word"
begin

section \<open>fastqcheck: the statistics pass of \<^verbatim>\<open>src/fastqcheck.c\<close>\<close>

text \<open>
  The program reads FASTQ records through \<^verbatim>\<open>readFastq\<close> (readseq.c), folds each record
  into static counter arrays and prints a fixed report. The embedding follows \<^verbatim>\<open>main\<close>
  statement by statement.

  Conventions of the embedding.
  \<^item> The counters are \<^verbatim>\<open>long\<close> and \<^verbatim>\<open>unsigned long long\<close> (64 bits on the LP64 targets
    the program is built for). They are modelled by \<open>int\<close> and \<open>nat\<close> without wrap-around:
    reaching \<open>2^63\<close> needs an input of more than \<open>2^63\<close> bytes.
  \<^item> A static array is a function from the index to the cell, all cells 0 at start. An
    access made outside the declared bound is undefined behaviour in C, and in a compiled
    program it changes a cell of some other object. The model leaves the arrays
    unchanged, goes on like the compiled code does, and records the event in the field
    \<open>oob\<close>. What the counters and the report hold is stated only for runs in which \<open>oob\<close>
    stays false (every record shorter than \<^verbatim>\<open>MAX_LENGTH\<close>); for the other runs the statements
    are about the flow of control: the exit code, the usage text and the message.
  \<^item> The floating-point arithmetic is that of IEEE 754 in the default rounding mode (to
    nearest, ties to even), each operation rounded to the type C gives it: the
    conversions of the counters, the divisions, the products and \<^verbatim>\<open>sqrt\<close> return the
    correctly rounded result, in binary32 for the average of line 120 (its divisor is a
    \<^verbatim>\<open>float\<close>) and in binary64 everywhere else. Values are reals; the range of the exponent
    is not bounded.
  \<^item> C fixes no rounding for \<^verbatim>\<open>pow\<close> and \<^verbatim>\<open>log\<close>. The column \<^verbatim>\<open>AQ\<close> (the sum \<^verbatim>\<open>erate\<close>, its
    quotient and the logarithms) is computed in exact real arithmetic: what is stated
    about \<^verbatim>\<open>AQ\<close> is stated about the real number that the printed double approximates.
  \<^item> A division by zero, a logarithm of a non-positive number and a square root of a
    negative number give no finite value; they are \<open>None\<close>.
  \<^item> What \<^verbatim>\<open>printf\<close> writes is kept as a list of tokens, one per literal piece of the format
    string and one per conversion, each conversion with its width, precision and value.
\<close>

subsection \<open>Records handed over by the reader\<close>

text \<open>
  Modelled from the spec: \<^verbatim>\<open>readFastq\<close> and the table \<^verbatim>\<open>dna2indexConv\<close> live in readseq.c,
  which is not part of the sources. The reader decodes each symbol to one of five codes
  and each quality character to an \<^verbatim>\<open>unsigned char\<close>, and sets \<^verbatim>\<open>length\<close> to the number of
  symbols. Its return value is positive for a record, 0 at the end of the stream and
  negative for a malformed record.
\<close>

datatype base = Base_A | Base_C | Base_G | Base_T | Base_N

text \<open>Lines 55 to 59: \<^verbatim>\<open>_A\<close> to \<^verbatim>\<open>_N\<close>.\<close>

definition idx_A :: nat where "idx_A = 0"
definition idx_C :: nat where "idx_C = 1"
definition idx_G :: nat where "idx_G = 2"
definition idx_T :: nat where "idx_T = 3"
definition idx_N :: nat where "idx_N = 4"

text \<open>What \<^verbatim>\<open>seq[i]\<close> holds for each symbol.\<close>

fun index_of :: "base \<Rightarrow> nat" where
  "index_of Base_A = idx_A"
| "index_of Base_C = idx_C"
| "index_of Base_G = idx_G"
| "index_of Base_T = idx_T"
| "index_of Base_N = idx_N"

record read =
  id' :: string
  seq :: "base list"
  qval :: "8 word list"

definition len :: "read \<Rightarrow> nat" where
  "len r = length (seq r)"

definition aligned :: "read \<Rightarrow> bool" where
  "aligned r \<longleftrightarrow> length (qval r) = length (seq r)"

datatype item = Good read | Malformed

type_synonym stream = "item list"

definition MAX_LENGTH :: nat where
  "MAX_LENGTH = 100000"

subsection \<open>Output\<close>

datatype token =
    Lit string
  | Str string
  | Dec nat "int option"
  | Flt nat nat "real option"

datatype exit_code = EXIT_SUCCESS | EXIT_FAILURE

record outcome =
  code :: exit_code
  out :: "token list"
  err :: "token list"

definition usage :: "string \<Rightarrow> token list" where
  "usage ver =
     [Lit ''fastqcheck is a program that reads FASTQ files, generates statistics,\<newline>and can be used as a validator.\<newline>'',
      Lit ''Usage:  fastqcheck lane1.fastq\<newline>'',
      Lit ''Version: '', Str ver, Lit ''\<newline>'']"

text \<open>\<^verbatim>\<open>print_usage (stdout, exit_code)\<close>: writes the usage text and ends the process. Every
  call in \<^verbatim>\<open>main\<close> passes \<^verbatim>\<open>stdout\<close>; the third argument is what \<^verbatim>\<open>stderr\<close> holds so far.\<close>

definition print_usage :: "string \<Rightarrow> exit_code \<Rightarrow> token list \<Rightarrow> outcome" where
  "print_usage ver exit_code e = \<lparr>code = exit_code, out = usage ver, err = e\<rparr>"

subsection \<open>Floating-point arithmetic\<close>

text \<open>\<^verbatim>\<open>lrint\<close> in the default rounding mode: the integer at distance below one half, and
  the even one of the two when the argument lies halfway.\<close>

definition lrint :: "real \<Rightarrow> int" where
  "lrint x =
     (let f = \<lfloor>x\<rfloor>; d = x - of_int f
      in if d < 1 / 2 then f
         else if 1 / 2 < d then f + 1
         else if even f then f else f + 1)"

text \<open>Rounding a real to a binary format with \<open>p\<close> fraction bits, to nearest and ties to
  even: the result is a multiple of the unit in the last place of the binade of \<open>x\<close>, with
  a significand of \<open>p + 1\<close> bits. The range of the exponent is not bounded; the values
  rounded in this program lie between \<open>2\<^sup>-\<^sup>6\<^sup>4\<close> and \<open>2\<^sup>6\<^sup>4\<close>.\<close>

definition round_to :: "nat \<Rightarrow> real \<Rightarrow> real" where
  "round_to p x =
     (if x = 0 then 0
      else (let u = 2 powr (real_of_int \<lfloor>log 2 \<bar>x\<bar>\<rfloor> - real p)
            in real_of_int (lrint (x / u)) * u))"

text \<open>\<^verbatim>\<open>double\<close> is binary64, \<^verbatim>\<open>float\<close> is binary32.\<close>

definition to_double :: "real \<Rightarrow> real" where
  "to_double x = round_to 52 x"

definition to_float :: "real \<Rightarrow> real" where
  "to_float x = round_to 23 x"

text \<open>The division of two doubles and of two floats, and \<^verbatim>\<open>sqrt\<close> of a double.\<close>

definition div_double :: "real \<Rightarrow> real \<Rightarrow> real option" where
  "div_double a b = (if b = 0 then None else Some (to_double (a / b)))"

definition div_float :: "real \<Rightarrow> real \<Rightarrow> real option" where
  "div_float a b = (if b = 0 then None else Some (to_float (a / b)))"

definition dsqrt :: "real \<Rightarrow> real option" where
  "dsqrt a = (if a < 0 then None else Some (to_double (sqrt a)))"

text \<open>The exact quotient and the exact logarithm, for the column \<^verbatim>\<open>AQ\<close>.\<close>

definition ddiv :: "real \<Rightarrow> real \<Rightarrow> real option" where
  "ddiv a b = (if b = 0 then None else Some (a / b))"

definition dlog :: "real \<Rightarrow> real option" where
  "dlog a = (if a \<le> 0 then None else Some (ln a))"

subsection \<open>The accumulators\<close>

record acc =
  nseq :: int
  total' :: nat
  lengthMax :: nat
  qMax :: nat
  sum' :: "nat \<Rightarrow> int"
  qsum :: "nat \<Rightarrow> int"
  psum :: "nat \<Rightarrow> nat \<Rightarrow> int"
  pqsum :: "nat \<Rightarrow> nat \<Rightarrow> int"
  nlen :: "nat \<Rightarrow> int"
  oob :: bool

definition init :: acc where
  "init = \<lparr>nseq = 0, total' = 0, lengthMax = 0, qMax = 0,
           sum' = (\<lambda>_. 0), qsum = (\<lambda>_. 0), psum = (\<lambda>_ _. 0), pqsum = (\<lambda>_ _. 0),
           nlen = (\<lambda>_. 0), oob = False\<rparr>"

text \<open>Lines 106 to 108, the body of the loop over the symbols of one record.\<close>

definition tally :: "read \<Rightarrow> nat \<Rightarrow> acc \<Rightarrow> acc" where
  "tally r i st =
     (let s = index_of (seq r ! i); q = unat (qval r ! i)
      in st\<lparr>sum' := (sum' st)(s := sum' st s + 1),
            psum := (if i < MAX_LENGTH then (psum st)(i := (psum st i)(s := psum st i s + 1))
                     else psum st),
            qsum := (qsum st)(q := qsum st q + 1),
            pqsum := (if i < MAX_LENGTH then (pqsum st)(i := (pqsum st i)(q := pqsum st i q + 1))
                      else pqsum st),
            qMax := (if qMax st < q then q else qMax st),
            oob := (oob st \<or> \<not> i < MAX_LENGTH)\<rparr>)"

text \<open>Line 105: \<^verbatim>\<open>for (i = 0 ; i < length ; ++i)\<close>, entered at any \<open>i\<close>.\<close>

function tally_loop :: "read \<Rightarrow> nat \<Rightarrow> acc \<Rightarrow> acc" where
  "tally_loop r i st = (if i < len r then tally_loop r (i + 1) (tally r i st) else st)"
  by pat_completeness auto
termination
  by (relation "measure (\<lambda>(r, i, st). len r - i)") auto

declare tally_loop.simps [simp del]

text \<open>Lines 96 to 110, the body of the read loop. The left result is the process ended by
  \<^verbatim>\<open>print_usage\<close> at line 102, after the message of line 101.\<close>

definition accumulate :: "string \<Rightarrow> read \<Rightarrow> acc \<Rightarrow> outcome + acc" where
  "accumulate ver r st =
     (let length' = len r;
          st1 = st\<lparr>nseq := nseq st + 1\<rparr>;
          st2 = (if length' < MAX_LENGTH
                 then st1\<lparr>nlen := (nlen st1)(length' := nlen st1 length' + 1)\<rparr>
                 else st1\<lparr>oob := True\<rparr>);
          st3 = st2\<lparr>total' := total' st2 + length'\<rparr>
      in if lengthMax st3 < length' then
           (let st4 = st3\<lparr>lengthMax := length'\<rparr>
            in if MAX_LENGTH < length' then
                 Inl (print_usage ver EXIT_FAILURE
                       [Lit ''read '', Str (id' r), Lit '' length = '', Dec 0 (Some (int length')),
                        Lit '' longer than MAX_LENGTH = '', Dec 0 (Some (int MAX_LENGTH)),
                        Lit ''; edit and recompile with larger MAX_LENGTH\<newline>''])
               else Inr (tally_loop r 0 st4))
         else Inr (tally_loop r 0 st3))"

text \<open>Line 95 and lines 113 to 116: the read loop. The three equations are the three
  kinds of status \<^verbatim>\<open>readFastq\<close> returns: 0 at the end of the stream, negative for a
  malformed record (the loop ends and line 115 leaves the process), positive for a record.\<close>

fun main_loop :: "string \<Rightarrow> acc \<Rightarrow> stream \<Rightarrow> outcome + acc" where
  "main_loop ver st [] = Inr st"
| "main_loop ver st (Malformed # fil) = Inl (print_usage ver EXIT_FAILURE [])"
| "main_loop ver st (Good r # fil) =
     (case accumulate ver r st of
        Inl e \<Rightarrow> Inl e
      | Inr st' \<Rightarrow> main_loop ver st' fil)"

subsection \<open>The report\<close>

text \<open>Line 127: the column heads \<^verbatim>\<open>0 .. qMax\<close>.\<close>

function head_loop :: "nat \<Rightarrow> nat \<Rightarrow> token list" where
  "head_loop qm i =
     (if i \<le> qm then [Lit '' '', Dec 3 (Some (int i))] @ head_loop qm (i + 1) else [])"
  by pat_completeness auto
termination
  by (relation "measure (\<lambda>(qm, i). Suc qm - i)") auto

declare head_loop.simps [simp del]

text \<open>Lines 129 to 132 and 141 to 144: \<^verbatim>\<open>100*((double)c/d)\<close> for a counter \<open>c\<close> and the
  denominator \<open>d\<close> of the line, an integer that the division converts to \<^verbatim>\<open>double\<close>; then the
  five percentages of a line.\<close>

definition pct :: "int \<Rightarrow> real \<Rightarrow> real option" where
  "pct c d =
     map_option (\<lambda>x. to_double (100 * x)) (div_double (to_double (real_of_int c)) (to_double d))"

definition composition :: "(nat \<Rightarrow> int) \<Rightarrow> real \<Rightarrow> token list" where
  "composition counts d =
     [Lit ''  '', Flt 4 1 (pct (counts idx_A) d), Lit '' '', Flt 4 1 (pct (counts idx_C) d),
      Lit '' '', Flt 4 1 (pct (counts idx_G) d), Lit '' '', Flt 4 1 (pct (counts idx_T) d),
      Lit '' '', Flt 4 1 (pct (counts idx_N) d), Lit '' '']"

text \<open>Lines 134 and 146: \<^verbatim>\<open>1000*((double)c/d)\<close> as the double it is, and its \<^verbatim>\<open>lrint\<close>.\<close>

definition permille_value :: "real \<Rightarrow> real \<Rightarrow> real" where
  "permille_value c d = to_double (1000 * to_double (to_double c / to_double d))"

definition permille :: "int \<Rightarrow> real \<Rightarrow> int option" where
  "permille c d =
     (if to_double d = 0 then None else Some (lrint (permille_value (real_of_int c) d)))"

text \<open>Lines 133 to 136 and 145 to 148: the per-mille entries of a line and the sum
  \<^verbatim>\<open>erate\<close>, for the counts of the line and its denominator.\<close>

function qual_loop :: "(nat \<Rightarrow> int) \<Rightarrow> real \<Rightarrow> nat \<Rightarrow> nat \<Rightarrow> real \<Rightarrow> token list \<times> real" where
  "qual_loop counts d qm j erate =
     (if j \<le> qm then
        (let (toks, e) = qual_loop counts d qm (j + 1)
                           (erate + 10 powr (real j / - 10) * real_of_int (counts j))
         in ([Lit '' '', Dec 3 (permille (counts j) d)] @ toks, e))
      else ([], erate))"
  by pat_completeness auto
termination
  by (relation "measure (\<lambda>(counts, d, qm, j, erate). Suc qm - j)") auto

declare qual_loop.simps [simp del]

text \<open>Lines 137 and 149: \<^verbatim>\<open>-10*log(erate/d)/log(10)\<close>, in exact arithmetic.\<close>

definition aq :: "real \<Rightarrow> real \<Rightarrow> real option" where
  "aq erate d =
     (case ddiv erate d of
        None \<Rightarrow> None
      | Some m \<Rightarrow> map_option (\<lambda>l. - 10 * l / ln 10) (dlog m))"

definition quality_row :: "(nat \<Rightarrow> int) \<Rightarrow> real \<Rightarrow> nat \<Rightarrow> token list" where
  "quality_row counts d qm =
     (let (toks, erate) = qual_loop counts d qm 0 0
      in toks @ [Lit '' '', Flt 4 1 (aq erate d)])"

text \<open>Lines 138 to 150: one line per position, the running count \<^verbatim>\<open>nseq\<close> reduced by
  \<^verbatim>\<open>nlen[i]\<close> before line \<open>i\<close> is printed.\<close>

definition base_line :: "acc \<Rightarrow> nat \<Rightarrow> int \<Rightarrow> token list" where
  "base_line st i n =
     [Lit ''\<newline>base '', Dec 2 (Some (int i + 1))]
     @ composition (psum st i) (real_of_int n)
     @ quality_row (pqsum st i) (real_of_int n) (qMax st)"

function base_loop :: "acc \<Rightarrow> nat \<Rightarrow> int \<Rightarrow> token list" where
  "base_loop st i n =
     (if i < lengthMax st then
        (let n' = n - nlen st i
         in base_line st i n' @ base_loop st (i + 1) n')
      else [])"
  by pat_completeness auto
termination
  by (relation "measure (\<lambda>(st, i, n). lengthMax st - i)") auto

declare base_loop.simps [simp del]

text \<open>Lines 124 and 125: \<^verbatim>\<open>100*(sqrt(0.25*(double)n)/n)\<close> for the integer \<open>n\<close>.\<close>

definition deviation :: "real \<Rightarrow> real option" where
  "deviation n =
     (case dsqrt (to_double (0.25 * to_double n)) of
        None \<Rightarrow> None
      | Some s \<Rightarrow> map_option (\<lambda>x. to_double (100 * x)) (div_double s (to_double n)))"

text \<open>Lines 123 to 152.\<close>

definition numeric_section :: "acc \<Rightarrow> token list" where
  "numeric_section st =
     [Lit ''Standard deviations at 0.25:  total '', Flt 5 2 (deviation (real (total' st))),
      Lit '' %, per base '', Flt 5 2 (deviation (real_of_int (nseq st))), Lit '' %\<newline>'']
     @ [Lit ''            A    C    G    T    N '']
     @ head_loop (qMax st) 0
     @ [Lit '' AQ\<newline>Total  '']
     @ composition (sum' st) (real (total' st))
     @ quality_row (qsum st) (real (total' st)) (qMax st)
     @ base_loop st 0 (nseq st)
     @ [Lit ''\<newline>'']"

text \<open>Lines 118 to 121. In \<^verbatim>\<open>total/(float)nseq\<close> the divisor is a \<^verbatim>\<open>float\<close>, so \<^verbatim>\<open>total\<close> is
  converted to \<^verbatim>\<open>float\<close> and the division is one of binary32; \<^verbatim>\<open>printf\<close> gets the quotient
  as the double of the same value.\<close>

definition summary :: "acc \<Rightarrow> token list" where
  "summary st =
     [Dec 0 (Some (nseq st)), Lit '' sequences, '', Dec 0 (Some (int (total' st))),
      Lit '' total length'']
     @ (if nseq st \<noteq> 0
        then [Lit '', '', Flt 0 2 (div_float (to_float (real (total' st)))
                                           (to_float (real_of_int (nseq st)))),
              Lit '' average, '', Dec 0 (Some (int (lengthMax st))), Lit '' max'']
        else [])
     @ [Lit ''\<newline>'']"

definition report :: "acc \<Rightarrow> token list" where
  "report st = summary st @ (if total' st \<noteq> 0 then numeric_section st else [])"

subsection \<open>The program\<close>

text \<open>The process environment: the arguments after the program name, the files that
  \<^verbatim>\<open>fopen\<close> can open for reading with their content, the content of standard input, and
  \<^verbatim>\<open>PACKAGE_VERSION\<close> of config.h, which is not part of the sources.\<close>

record env =
  args :: "string list"
  fopen :: "string \<Rightarrow> stream option"
  stdin :: stream
  PACKAGE_VERSION :: string

text \<open>Lines 95 to 153 for the stream \<open>fil\<close>.\<close>

definition process :: "string \<Rightarrow> stream \<Rightarrow> outcome" where
  "process ver fil =
     (case main_loop ver init fil of
        Inl e \<Rightarrow> e
      | Inr st \<Rightarrow> \<lparr>code = EXIT_SUCCESS, out = report st, err = []\<rparr>)"

text \<open>Lines 84 to 93, then the rest of \<^verbatim>\<open>main\<close>.\<close>

definition main :: "env \<Rightarrow> outcome" where
  "main e =
     (case args e of
        [] \<Rightarrow> process (PACKAGE_VERSION e) (stdin e)
      | f # _ \<Rightarrow>
          (case fopen e f of
             None \<Rightarrow>
               print_usage (PACKAGE_VERSION e) EXIT_FAILURE
                 [Lit ''Failed to open fastq file '', Str f, Lit ''\<newline>'']
           | Some fil \<Rightarrow> print_usage (PACKAGE_VERSION e) EXIT_SUCCESS []))"

section \<open>Auxiliary definitions for the statements\<close>

text \<open>The state one record leaves behind when \<^verbatim>\<open>accumulate\<close> does not end the process. As
  in \<^verbatim>\<open>accumulate\<close>, the increment of line 96 is in \<^verbatim>\<open>nlen\<close> only for a record shorter than
  \<^verbatim>\<open>MAX_LENGTH\<close>.\<close>

definition counted :: "read \<Rightarrow> acc \<Rightarrow> acc" where
  "counted r st =
     tally_loop r 0
       (st\<lparr>nseq := nseq st + 1,
           nlen := (if len r < MAX_LENGTH then (nlen st)(len r := nlen st (len r) + 1) else nlen st),
           oob := (oob st \<or> \<not> len r < MAX_LENGTH),
           total' := total' st + len r,
           lengthMax := max (lengthMax st) (len r)\<rparr>)"

text \<open>The number of records that have a symbol at position \<open>i\<close>.\<close>

definition longer :: "read list \<Rightarrow> nat \<Rightarrow> nat" where
  "longer rs i = length (filter (\<lambda>r. i < len r) rs)"

text \<open>The quality values the loop of line 105 reads from a record.\<close>

definition quals :: "read \<Rightarrow> nat list" where
  "quals r = map (\<lambda>k. unat (qval r ! k)) [0..<len r]"

text \<open>The quality values in scope: of all symbols, and of the symbols at position \<open>i\<close>.\<close>

definition scope_all :: "read list \<Rightarrow> nat list" where
  "scope_all rs = concat (map (\<lambda>r. map unat (qval r)) rs)"

definition scope_at :: "read list \<Rightarrow> nat \<Rightarrow> nat list" where
  "scope_at rs i = map (\<lambda>r. unat (qval r ! i)) (filter (\<lambda>r. i < len r) rs)"

text \<open>The codes of the symbols in scope: of all symbols, and of the symbols at position \<open>i\<close>.\<close>

definition symbols_all :: "read list \<Rightarrow> nat list" where
  "symbols_all rs = concat (map (\<lambda>r. map index_of (seq r)) rs)"

definition symbols_at :: "read list \<Rightarrow> nat \<Rightarrow> nat list" where
  "symbols_at rs i = map (\<lambda>r. index_of (seq r ! i)) (filter (\<lambda>r. i < len r) rs)"

text \<open>The largest length and the largest quality value of the input, 0 when there is none.\<close>

definition max_length :: "read list \<Rightarrow> nat" where
  "max_length rs = Max (insert 0 (len ` set rs))"

definition max_quality :: "read list \<Rightarrow> nat" where
  "max_quality rs = Max (insert 0 (set (scope_all rs)))"

text \<open>The mean error probability of a scope, with \<open>n\<^sub>q\<close> the number of times the value \<open>q\<close>
  occurs in it, and the quality that corresponds to it.\<close>

definition mean_error :: "nat list \<Rightarrow> real" where
  "mean_error qs =
     (\<Sum>q\<in>set qs. real (count_list qs q) * 10 powr (- real q / 10)) / real (length qs)"

definition spec_AQ :: "nat list \<Rightarrow> real" where
  "spec_AQ qs = - 10 * log 10 (mean_error qs)"

text \<open>\<open>k\<close> is the integer nearest to \<open>x\<close>, the even one when two are equally near.\<close>

definition nearest_even :: "real \<Rightarrow> int \<Rightarrow> bool" where
  "nearest_even x k \<longleftrightarrow>
     \<bar>real_of_int k - x\<bar> \<le> 1 / 2 \<and> (\<bar>real_of_int k - x\<bar> = 1 / 2 \<longrightarrow> even k)"

text \<open>\<open>100 c / d\<close> and \<open>1000 c / d\<close> for a count \<open>c\<close> and a denominator \<open>d\<close>, in double precision:
  \<open>c\<close> and \<open>d\<close> are converted, divided, and the quotient is multiplied, with a rounding after
  each step.\<close>

definition percent :: "nat \<Rightarrow> nat \<Rightarrow> real" where
  "percent c d = to_double (100 * to_double (to_double (real c) / to_double (real d)))"

definition per_mille :: "nat \<Rightarrow> nat \<Rightarrow> real" where
  "per_mille c d = to_double (1000 * to_double (to_double (real c) / to_double (real d)))"

text \<open>The five percentages of a line, for the symbols in its scope and its denominator.\<close>

definition percents :: "nat list \<Rightarrow> nat \<Rightarrow> token list" where
  "percents syms d =
     [Lit ''  '', Flt 4 1 (Some (percent (count_list syms idx_A) d)),
      Lit '' '', Flt 4 1 (Some (percent (count_list syms idx_C) d)),
      Lit '' '', Flt 4 1 (Some (percent (count_list syms idx_G) d)),
      Lit '' '', Flt 4 1 (Some (percent (count_list syms idx_T) d)),
      Lit '' '', Flt 4 1 (Some (percent (count_list syms idx_N) d)), Lit '' '']"

text \<open>The entries of a line for the quality values 0 to \<open>qm\<close>, the entry of \<open>q\<close> holding \<open>E q\<close>.\<close>

definition entry_tokens :: "(nat \<Rightarrow> int) \<Rightarrow> nat \<Rightarrow> token list" where
  "entry_tokens E qm = concat (map (\<lambda>q. [Lit '' '', Dec 3 (Some (E q))]) [0..<Suc qm])"

text \<open>\<open>100 sqrt (0.25 n) / n\<close> in double precision, a rounding after each step.\<close>

definition spec_deviation :: "nat \<Rightarrow> real" where
  "spec_deviation n =
     to_double (100 * to_double (to_double (sqrt (to_double (0.25 * to_double (real n))))
                                  / to_double (real n)))"

text \<open>The report of a run over the records \<open>rs\<close>, written from \<open>rs\<close> alone: the two lines
  before the table together with the heads of its columns, the line \<^verbatim>\<open>Total\<close>, and the line
  of position \<open>i\<close>.\<close>

definition report_head :: "read list \<Rightarrow> token list" where
  "report_head rs =
     [Dec 0 (Some (int (length rs))), Lit '' sequences, '',
      Dec 0 (Some (int (sum_list (map len rs)))), Lit '' total length'', Lit '', '',
      Flt 0 2 (Some (to_float (to_float (real (sum_list (map len rs)))
                                / to_float (real (length rs))))),
      Lit '' average, '', Dec 0 (Some (int (max_length rs))), Lit '' max'', Lit ''\<newline>'',
      Lit ''Standard deviations at 0.25:  total '',
      Flt 5 2 (Some (spec_deviation (sum_list (map len rs)))),
      Lit '' %, per base '', Flt 5 2 (Some (spec_deviation (length rs))), Lit '' %\<newline>'',
      Lit ''            A    C    G    T    N '']
     @ concat (map (\<lambda>q. [Lit '' '', Dec 3 (Some (int q))]) [0..<Suc (max_quality rs)])
     @ [Lit '' AQ\<newline>Total  '']"

definition total_line :: "read list \<Rightarrow> token list" where
  "total_line rs =
     percents (symbols_all rs) (sum_list (map len rs))
     @ entry_tokens (\<lambda>q. lrint (per_mille (count_list (scope_all rs) q) (sum_list (map len rs))))
         (max_quality rs)
     @ [Lit '' '', Flt 4 1 (Some (spec_AQ (scope_all rs)))]"

definition position_line :: "read list \<Rightarrow> nat \<Rightarrow> token list" where
  "position_line rs i =
     [Lit ''\<newline>base '', Dec 2 (Some (int i + 1))]
     @ percents (symbols_at rs i) (longer rs i)
     @ entry_tokens (\<lambda>q. lrint (per_mille (count_list (scope_at rs i) q) (longer rs i)))
         (max_quality rs)
     @ [Lit '' '', Flt 4 1 (Some (spec_AQ (scope_at rs i)))]"

text \<open>Rounding to the nearest integer, halfway cases away from zero (\<^verbatim>\<open>round\<close> of C), as
  the specification words the rounding of the per-mille entries.\<close>

definition spec_round :: "real \<Rightarrow> int" where
  "spec_round x = (if 0 \<le> x then \<lfloor>x + 1 / 2\<rfloor> else \<lceil>x - 1 / 2\<rceil>)"

text \<open>Two records of different lengths, with symbols and quality values that differ.\<close>

definition read_AC :: read where
  "read_AC = \<lparr>id' = ''r1'', seq = [Base_A, Base_C], qval = [1, 0]\<rparr>"

definition read_G :: read where
  "read_G = \<lparr>id' = ''r2'', seq = [Base_G], qval = [0]\<rparr>"

text \<open>A record of \<open>n\<close> symbols.\<close>

definition uniform_read :: "nat \<Rightarrow> read" where
  "uniform_read n = \<lparr>id' = ''r1'', seq = replicate n Base_A, qval = replicate n 30\<rparr>"

text \<open>A record of 16 symbols, one of quality 1 and fifteen of quality 0.\<close>

definition tie_record :: read where
  "tie_record = \<lparr>id' = ''r1'',
          seq = [Base_A, Base_A, Base_A, Base_A, Base_A, Base_A, Base_A, Base_A,
                 Base_A, Base_A, Base_A, Base_A, Base_A, Base_A, Base_A, Base_A],
          qval = [1, 0, 0, 0, 0, 0, 0, 0, 0, 0, 0, 0, 0, 0, 0, 0]\<rparr>"

text \<open>A record of exactly \<^verbatim>\<open>MAX_LENGTH\<close> symbols.\<close>

definition full_record :: read where
  "full_record = \<lparr>id' = ''r1'', seq = replicate 100000 Base_A, qval = replicate 100000 30\<rparr>"

text \<open>A token whose value is a finite number (or text).\<close>

fun finite_tok :: "token \<Rightarrow> bool" where
  "finite_tok (Dec w None) = False"
| "finite_tok (Flt w p None) = False"
| "finite_tok t = True"

section \<open>The accumulation loops\<close>

lemma tally_loop_unfold:
  "i < len r \<Longrightarrow> tally_loop r i st = tally_loop r (i + 1) (tally r i st)"
  by (subst tally_loop.simps) simp

lemma tally_loop_done:
  "\<not> i < len r \<Longrightarrow> tally_loop r i st = st"
  by (subst tally_loop.simps) simp

lemma tally_loop_frame:
  "nseq (tally_loop r i st) = nseq st \<and> total' (tally_loop r i st) = total' st
   \<and> lengthMax (tally_loop r i st) = lengthMax st \<and> nlen (tally_loop r i st) = nlen st"
proof (induction r i st rule: tally_loop.induct)
  case (1 r i st)
  show ?case
  proof (cases "i < len r")
    case True
    show ?thesis using 1 [OF True] by (simp add: tally_loop_unfold [OF True] tally_def Let_def)
  next
    case False
    then show ?thesis by (simp only: tally_loop_done simp_thms)
  qed
qed

lemma tally_loop_psum:
  "psum (tally_loop r i st) p b =
     psum st p b + (if i \<le> p \<and> p < len r \<and> p < MAX_LENGTH \<and> index_of (seq r ! p) = b then 1 else 0)"
proof (induction r i st rule: tally_loop.induct)
  case (1 r i st)
  show ?case
  proof (cases "i < len r")
    case True
    have "psum (tally_loop r i st) p b =
        psum (tally r i st) p b + (if i + 1 \<le> p \<and> p < len r \<and> p < MAX_LENGTH \<and> index_of (seq r ! p) = b then 1 else 0)"
      using 1 [OF True] by (simp only: tally_loop_unfold [OF True])
    also have "\<dots> = psum st p b + (if i \<le> p \<and> p < len r \<and> p < MAX_LENGTH \<and> index_of (seq r ! p) = b then 1 else 0)"
      using True by (auto simp: tally_def Let_def)
    finally show ?thesis .
  next
    case False
    then show ?thesis by (simp add: tally_loop_done)
  qed
qed

lemma tally_loop_pqsum:
  "pqsum (tally_loop r i st) p q =
     pqsum st p q + (if i \<le> p \<and> p < len r \<and> p < MAX_LENGTH \<and> unat (qval r ! p) = q then 1 else 0)"
proof (induction r i st rule: tally_loop.induct)
  case (1 r i st)
  show ?case
  proof (cases "i < len r")
    case True
    have "pqsum (tally_loop r i st) p q =
        pqsum (tally r i st) p q + (if i + 1 \<le> p \<and> p < len r \<and> p < MAX_LENGTH \<and> unat (qval r ! p) = q then 1 else 0)"
      using 1 [OF True] by (simp only: tally_loop_unfold [OF True])
    also have "\<dots> = pqsum st p q + (if i \<le> p \<and> p < len r \<and> p < MAX_LENGTH \<and> unat (qval r ! p) = q then 1 else 0)"
      using True by (auto simp: tally_def Let_def)
    finally show ?thesis .
  next
    case False
    then show ?thesis by (simp add: tally_loop_done)
  qed
qed

lemma tally_loop_sum:
  "sum' (tally_loop r i st) b =
     sum' st b + int (length (filter (\<lambda>k. index_of (seq r ! k) = b) [i..<len r]))"
proof (induction r i st rule: tally_loop.induct)
  case (1 r i st)
  show ?case
  proof (cases "i < len r")
    case True
    have eq: "[i..<len r] = i # [i + 1..<len r]" using True by (simp add: upt_conv_Cons)
    have "sum' (tally_loop r i st) b =
        sum' (tally r i st) b + int (length (filter (\<lambda>k. index_of (seq r ! k) = b) [i + 1..<len r]))"
      using 1 [OF True] by (simp only: tally_loop_unfold [OF True])
    also have "\<dots> = sum' st b + int (length (filter (\<lambda>k. index_of (seq r ! k) = b) [i..<len r]))"
      unfolding eq by (simp add: tally_def Let_def)
    finally show ?thesis .
  next
    case False
    then show ?thesis by (simp add: tally_loop_done)
  qed
qed

lemma tally_loop_qsum:
  "qsum (tally_loop r i st) q =
     qsum st q + int (length (filter (\<lambda>k. unat (qval r ! k) = q) [i..<len r]))"
proof (induction r i st rule: tally_loop.induct)
  case (1 r i st)
  show ?case
  proof (cases "i < len r")
    case True
    have eq: "[i..<len r] = i # [i + 1..<len r]" using True by (simp add: upt_conv_Cons)
    have "qsum (tally_loop r i st) q =
        qsum (tally r i st) q + int (length (filter (\<lambda>k. unat (qval r ! k) = q) [i + 1..<len r]))"
      using 1 [OF True] by (simp only: tally_loop_unfold [OF True])
    also have "\<dots> = qsum st q + int (length (filter (\<lambda>k. unat (qval r ! k) = q) [i..<len r]))"
      unfolding eq by (simp add: tally_def Let_def)
    finally show ?thesis .
  next
    case False
    then show ?thesis by (simp add: tally_loop_done)
  qed
qed

lemma tally_loop_oob:
  "oob (tally_loop r i st) \<longleftrightarrow> oob st \<or> (i < len r \<and> MAX_LENGTH < len r)"
proof (induction r i st rule: tally_loop.induct)
  case (1 r i st)
  show ?case
  proof (cases "i < len r")
    case True
    have "oob (tally_loop r i st) \<longleftrightarrow> oob (tally r i st) \<or> (i + 1 < len r \<and> MAX_LENGTH < len r)"
      using 1 [OF True] by (simp only: tally_loop_unfold [OF True])
    also have "\<dots> \<longleftrightarrow> oob st \<or> (i < len r \<and> MAX_LENGTH < len r)"
      using True by (auto simp: tally_def Let_def)
    finally show ?thesis .
  next
    case False
    then show ?thesis by (simp add: tally_loop_done)
  qed
qed

lemma Max_insert_max:
  "finite S \<Longrightarrow> Max (insert (max a b) S) = Max (insert a (insert b S))"
  by (cases "S = {}") (simp_all add: max.assoc)

lemma tally_loop_qMax:
  "qMax (tally_loop r i st) = Max (insert (qMax st) ((\<lambda>k. unat (qval r ! k)) ` {i..<len r}))"
proof (induction r i st rule: tally_loop.induct)
  case (1 r i st)
  show ?case
  proof (cases "i < len r")
    case True
    have eq: "{i..<len r} = insert i {i + 1..<len r}" using True by auto
    have q: "qMax (tally r i st) = max (qMax st) (unat (qval r ! i))"
      by (simp add: tally_def Let_def max_def)
    have "qMax (tally_loop r i st) =
        Max (insert (qMax (tally r i st)) ((\<lambda>k. unat (qval r ! k)) ` {i + 1..<len r}))"
      using 1 [OF True] by (simp only: tally_loop_unfold [OF True])
    also have "\<dots> = Max (insert (qMax st) ((\<lambda>k. unat (qval r ! k)) ` {i..<len r}))"
      by (simp only: q eq image_insert Max_insert_max [OF finite_imageI [OF finite_atLeastLessThan]])
    finally show ?thesis .
  next
    case False
    then show ?thesis by (simp add: tally_loop_done)
  qed
qed

lemma accumulate_ok:
  "len r \<le> MAX_LENGTH \<Longrightarrow> accumulate ver r st = Inr (counted r st)"
  by (cases st) (simp add: accumulate_def counted_def Let_def max_def not_less)

lemma accumulate_long:
  "lengthMax st \<le> MAX_LENGTH \<Longrightarrow> MAX_LENGTH < len r \<Longrightarrow>
   accumulate ver r st =
     Inl (print_usage ver EXIT_FAILURE
           [Lit ''read '', Str (id' r), Lit '' length = '', Dec 0 (Some (int (len r))),
            Lit '' longer than MAX_LENGTH = '', Dec 0 (Some (int MAX_LENGTH)),
            Lit ''; edit and recompile with larger MAX_LENGTH\<newline>''])"
  by (simp add: accumulate_def Let_def)

lemma main_loop_good:
  "\<forall>r\<in>set rs. len r \<le> MAX_LENGTH \<Longrightarrow> main_loop ver st (map Good rs) = Inr (fold counted rs st)"
  by (induction rs arbitrary: st) (simp_all add: accumulate_ok)

lemma counted_nseq: "nseq (counted r st) = nseq st + 1"
  by (simp add: counted_def tally_loop_frame)

lemma counted_total: "total' (counted r st) = total' st + len r"
  by (simp add: counted_def tally_loop_frame)

lemma counted_lengthMax: "lengthMax (counted r st) = max (lengthMax st) (len r)"
  by (simp add: counted_def tally_loop_frame)

lemma counted_nlen:
  "nlen (counted r st) k = nlen st k + (if len r = k \<and> k < MAX_LENGTH then 1 else 0)"
  by (simp add: counted_def tally_loop_frame)

lemma counted_psum:
  "len r \<le> MAX_LENGTH \<Longrightarrow>
   psum (counted r st) p b = psum st p b + (if p < len r \<and> index_of (seq r ! p) = b then 1 else 0)"
  by (simp add: counted_def tally_loop_psum)

lemma counted_pqsum:
  "len r \<le> MAX_LENGTH \<Longrightarrow>
   pqsum (counted r st) p q = pqsum st p q + (if p < len r \<and> unat (qval r ! p) = q then 1 else 0)"
  by (simp add: counted_def tally_loop_pqsum)

lemma counted_sum:
  "sum' (counted r st) b =
     sum' st b + int (length (filter (\<lambda>k. index_of (seq r ! k) = b) [0..<len r]))"
  by (simp add: counted_def tally_loop_sum)

lemma counted_qsum:
  "qsum (counted r st) q =
     qsum st q + int (length (filter (\<lambda>k. unat (qval r ! k) = q) [0..<len r]))"
  by (simp add: counted_def tally_loop_qsum)

lemma counted_qMax:
  "qMax (counted r st) = Max (insert (qMax st) ((\<lambda>k. unat (qval r ! k)) ` {0..<len r}))"
  by (simp add: counted_def tally_loop_qMax)

lemma counted_oob:
  "oob (counted r st) \<longleftrightarrow> oob st \<or> MAX_LENGTH \<le> len r"
  by (auto simp: counted_def tally_loop_oob)

text \<open>The state after a list of records, none longer than \<^verbatim>\<open>MAX_LENGTH\<close>.\<close>

lemma fold_nseq: "nseq (fold counted rs st) = nseq st + int (length rs)"
  by (induction rs arbitrary: st) (simp_all add: counted_nseq)

lemma fold_total: "total' (fold counted rs st) = total' st + sum_list (map len rs)"
  by (induction rs arbitrary: st) (simp_all add: counted_total)

lemma fold_lengthMax:
  "lengthMax (fold counted rs st) = Max (insert (lengthMax st) (len ` set rs))"
proof (induction rs arbitrary: st)
  case Nil
  show ?case by simp
next
  case (Cons r rs)
  show ?case
    by (simp only: fold_simps Cons counted_lengthMax list.set image_insert
        Max_insert_max [OF finite_imageI [OF finite_set]])
qed

lemma fold_nlen:
  "nlen (fold counted rs st) k =
     nlen st k + (if k < MAX_LENGTH then int (length (filter (\<lambda>r. len r = k) rs)) else 0)"
  by (induction rs arbitrary: st) (simp_all add: counted_nlen)

lemma fold_psum:
  "\<forall>r\<in>set rs. len r \<le> MAX_LENGTH \<Longrightarrow>
   psum (fold counted rs st) p b =
     psum st p b + int (length (filter (\<lambda>r. p < len r \<and> index_of (seq r ! p) = b) rs))"
  by (induction rs arbitrary: st) (simp_all add: counted_psum)

lemma fold_pqsum:
  "\<forall>r\<in>set rs. len r \<le> MAX_LENGTH \<Longrightarrow>
   pqsum (fold counted rs st) p q =
     pqsum st p q + int (length (filter (\<lambda>r. p < len r \<and> unat (qval r ! p) = q) rs))"
  by (induction rs arbitrary: st) (simp_all add: counted_pqsum)

lemma fold_sum:
  "sum' (fold counted rs st) b =
     sum' st b + (\<Sum>r\<leftarrow>rs. int (length (filter (\<lambda>k. index_of (seq r ! k) = b) [0..<len r])))"
  by (induction rs arbitrary: st) (simp_all add: counted_sum)

lemma fold_qsum:
  "qsum (fold counted rs st) q =
     qsum st q + (\<Sum>r\<leftarrow>rs. int (length (filter (\<lambda>k. unat (qval r ! k) = q) [0..<len r])))"
  by (induction rs arbitrary: st) (simp_all add: counted_qsum)

lemma fold_oob:
  "oob (fold counted rs st) \<longleftrightarrow> oob st \<or> (\<exists>r\<in>set rs. MAX_LENGTH \<le> len r)"
  by (induction rs arbitrary: st) (auto simp: counted_oob)

lemma fold_qMax_ge: "qMax st \<le> qMax (fold counted rs st)"
proof (induction rs arbitrary: st)
  case Nil
  show ?case by simp
next
  case (Cons r rs)
  have "qMax st \<le> qMax (counted r st)"
    by (simp add: counted_qMax)
  also have "\<dots> \<le> qMax (fold counted rs (counted r st))" by (rule Cons)
  finally show ?case by simp
qed

lemma fold_qMax_bound:
  "r \<in> set rs \<Longrightarrow> k < len r \<Longrightarrow> unat (qval r ! k) \<le> qMax (fold counted rs st)"
proof (induction rs arbitrary: st)
  case Nil
  then show ?case by simp
next
  case (Cons x rs)
  show ?case
  proof (cases "r = x")
    case True
    have "unat (qval r ! k) \<le> qMax (counted r st)"
      unfolding counted_qMax using Cons.prems(2) by (intro Max_ge) auto
    also have "\<dots> \<le> qMax (fold counted rs (counted r st))" by (rule fold_qMax_ge)
    finally show ?thesis using True by simp
  next
    case False
    with Cons.prems have "r \<in> set rs" by simp
    from Cons.IH [OF this Cons.prems(2)] show ?thesis by simp
  qed
qed

lemma fold_qMax_attained:
  "qMax (fold counted rs st) = qMax st
   \<or> (\<exists>r\<in>set rs. \<exists>k<len r. qMax (fold counted rs st) = unat (qval r ! k))"
proof (induction rs arbitrary: st)
  case Nil
  show ?case by simp
next
  case (Cons x rs)
  have fin: "finite (insert (qMax st) ((\<lambda>k. unat (qval x ! k)) ` {0..<len x}))" by simp
  have "qMax (counted x st) \<in> insert (qMax st) ((\<lambda>k. unat (qval x ! k)) ` {0..<len x})"
    unfolding counted_qMax by (rule Max_in [OF fin]) simp
  then have one: "qMax (counted x st) = qMax st \<or> (\<exists>k<len x. qMax (counted x st) = unat (qval x ! k))"
    by auto
  from Cons [of "counted x st"] one show ?case by (simp del: Max_insert) metis
qed

section \<open>Counting\<close>

lemma sum_filter_below:
  "(\<Sum>b<(n::nat). int (length (filter (\<lambda>x. P x \<and> f x = b) xs)))
     = int (length (filter (\<lambda>x. P x \<and> f x < n) xs))"
proof (induction xs)
  case Nil
  show ?case by simp
next
  case (Cons x xs)
  have "(\<Sum>b<n. int (length (filter (\<lambda>x. P x \<and> f x = b) (x # xs)))) =
        (\<Sum>b<n. (if f x = b then (if P x then 1 else 0) else 0)
                 + int (length (filter (\<lambda>x. P x \<and> f x = b) xs)))"
    by (intro sum.cong) auto
  also have "\<dots> = (\<Sum>b<n. (if f x = b then (if P x then 1 else 0) else 0))
                  + (\<Sum>b<n. int (length (filter (\<lambda>x. P x \<and> f x = b) xs)))"
    by (rule sum.distrib)
  also have "(\<Sum>b<n. (if f x = b then (if P x then 1 else 0) else 0))
               = (if P x \<and> f x < n then 1 else (0::int))"
    by (simp add: sum.delta')
  also have "(\<Sum>b<n. int (length (filter (\<lambda>x. P x \<and> f x = b) xs)))
               = int (length (filter (\<lambda>x. P x \<and> f x < n) xs))"
    by (rule Cons.IH)
  finally show ?case by simp
qed

lemma sum_filter_classes:
  assumes "\<And>x. x \<in> set xs \<Longrightarrow> f x < (n::nat)"
  shows "(\<Sum>b<n. int (length (filter (\<lambda>x. P x \<and> f x = b) xs))) = int (length (filter P xs))"
proof -
  have "filter (\<lambda>x. P x \<and> f x < n) xs = filter P xs"
    using assms by (intro filter_cong) auto
  then show ?thesis by (simp only: sum_filter_below)
qed

lemmas idx_defs = idx_A_def idx_C_def idx_G_def idx_T_def idx_N_def

lemma index_of_less: "index_of s < 5"
  by (cases s) (simp_all add: idx_defs)

lemma sum_sum_list_swap:
  "(\<Sum>b<n. \<Sum>r\<leftarrow>rs. g r b) = (\<Sum>r\<leftarrow>rs. \<Sum>b<n. (g r b :: int))"
  by (induction rs) (simp_all add: sum.distrib)

lemma main_loop_append:
  "\<forall>r\<in>set rs. len r \<le> MAX_LENGTH \<Longrightarrow>
   main_loop ver st (map Good rs @ fil) = main_loop ver (fold counted rs st) fil"
  by (induction rs arbitrary: st) (simp_all add: accumulate_ok)

lemma fold_lengthMax_le:
  "\<forall>r\<in>set rs. len r \<le> MAX_LENGTH \<Longrightarrow> lengthMax st \<le> MAX_LENGTH \<Longrightarrow>
   lengthMax (fold counted rs st) \<le> MAX_LENGTH"
  by (simp add: fold_lengthMax)

lemma short_record_in_bounds:
  "len r < MAX_LENGTH \<Longrightarrow> \<not> oob st \<Longrightarrow>
   accumulate ver r st = Inr (counted r st) \<and> \<not> oob (counted r st)"
  by (simp add: accumulate_ok counted_oob)

section \<open>Rounding\<close>

lemma lrint_of_int: "lrint (real_of_int k) = k"
  by (simp add: lrint_def)

lemma lrint_close: "\<bar>real_of_int (lrint x) - x\<bar> \<le> 1 / 2"
proof -
  have f: "real_of_int \<lfloor>x\<rfloor> \<le> x" "x < real_of_int \<lfloor>x\<rfloor> + 1" by linarith+
  show ?thesis unfolding lrint_def Let_def using f by auto
qed

lemma lrint_nonneg: "0 \<le> x \<Longrightarrow> 0 \<le> lrint x"
proof -
  assume "0 \<le> x"
  then have "0 \<le> \<lfloor>x\<rfloor>" by simp
  then show ?thesis unfolding lrint_def Let_def by auto
qed

lemma binade_bounds:
  assumes "x \<noteq> 0"
  shows "2 powr real_of_int \<lfloor>log 2 \<bar>x\<bar>\<rfloor> \<le> \<bar>x\<bar>"
    and "\<bar>x\<bar> < 2 powr (real_of_int \<lfloor>log 2 \<bar>x\<bar>\<rfloor> + 1)"
proof -
  have p: "0 < \<bar>x\<bar>" using assms by simp
  have "real_of_int \<lfloor>log 2 \<bar>x\<bar>\<rfloor> \<le> log 2 \<bar>x\<bar>" by linarith
  then have "2 powr real_of_int \<lfloor>log 2 \<bar>x\<bar>\<rfloor> \<le> 2 powr log 2 \<bar>x\<bar>" by simp
  then show "2 powr real_of_int \<lfloor>log 2 \<bar>x\<bar>\<rfloor> \<le> \<bar>x\<bar>" using p by simp
  have "log 2 \<bar>x\<bar> < real_of_int \<lfloor>log 2 \<bar>x\<bar>\<rfloor> + 1" by linarith
  then have "2 powr log 2 \<bar>x\<bar> < 2 powr (real_of_int \<lfloor>log 2 \<bar>x\<bar>\<rfloor> + 1)" by simp
  then show "\<bar>x\<bar> < 2 powr (real_of_int \<lfloor>log 2 \<bar>x\<bar>\<rfloor> + 1)" using p by simp
qed

text \<open>A value that is not 0 is not rounded to 0, and rounding keeps the sign.\<close>

lemma round_to_zero: "round_to p 0 = 0"
  by (simp add: round_to_def)

lemma round_to_nonneg: "0 \<le> x \<Longrightarrow> 0 \<le> round_to p x"
  by (simp add: round_to_def Let_def lrint_nonneg)

lemma round_to_eq_0_iff: "round_to p x = 0 \<longleftrightarrow> x = 0"
proof
  assume z: "round_to p x = 0"
  show "x = 0"
  proof (rule ccontr)
    assume nz: "x \<noteq> 0"
    define u where "u = 2 powr (real_of_int \<lfloor>log 2 \<bar>x\<bar>\<rfloor> - real p)"
    have up: "0 < u" by (simp add: u_def)
    have "2 powr real_of_int \<lfloor>log 2 \<bar>x\<bar>\<rfloor> = u * 2 powr real p"
      by (simp add: u_def powr_diff)
    with binade_bounds(1) [OF nz] have "u * 2 powr real p \<le> \<bar>x\<bar>" by simp
    moreover have "(1::real) \<le> 2 powr real p" by (rule ge_one_powr_ge_zero) simp_all
    then have "u * 1 \<le> u * 2 powr real p" using up by (intro mult_left_mono) simp_all
    ultimately have "u \<le> \<bar>x\<bar>" by simp
    then have big: "1 \<le> \<bar>x / u\<bar>" using up by (simp add: abs_divide pos_le_divide_eq)
    from z nz have "real_of_int (lrint (x / u)) * u = 0"
      by (simp add: round_to_def Let_def u_def)
    with up have "lrint (x / u) = 0" by simp
    with lrint_close [of "x / u"] have "\<bar>x / u\<bar> \<le> 1 / 2" by simp
    with big show False by linarith
  qed
next
  assume "x = 0"
  then show "round_to p x = 0" by (simp add: round_to_def)
qed

text \<open>An integer of at most \<open>p + 1\<close> bits, scaled by a power of 2, is representable: rounding
  leaves it as it is.\<close>

lemma floor_log2_int:
  assumes "m \<noteq> 0"
  shows "0 \<le> \<lfloor>log 2 \<bar>real_of_int m\<bar>\<rfloor>"
proof -
  have "1 \<le> \<bar>real_of_int m\<bar>" using assms by (simp flip: of_int_abs)
  then have "0 \<le> log 2 \<bar>real_of_int m\<bar>" by simp
  then show ?thesis by simp
qed

lemma round_to_exact:
  assumes "\<bar>m\<bar> < 2 ^ Suc p"
  shows "round_to p (real_of_int m * 2 powr real_of_int e) = real_of_int m * 2 powr real_of_int e"
proof (cases "m = 0")
  case True
  then show ?thesis by (simp add: round_to_def)
next
  case False
  define k where "k = \<lfloor>log 2 \<bar>real_of_int m\<bar>\<rfloor>"
  define x where "x = real_of_int m * 2 powr real_of_int e"
  have xnz: "x \<noteq> 0" using False by (simp add: x_def)
  have k0: "0 \<le> k" unfolding k_def using False by (rule floor_log2_int)
  have mp: "0 < \<bar>real_of_int m\<bar>" using False by simp
  have pw: "(2::real) powr real (Suc p) = 2 ^ Suc p" by (rule powr_realpow) simp
  have "real_of_int \<bar>m\<bar> < real_of_int (2 ^ Suc p)" using assms by (simp only: of_int_less_iff)
  then have "\<bar>real_of_int m\<bar> < 2 ^ Suc p" by simp
  then have "\<bar>real_of_int m\<bar> < 2 powr real (Suc p)"
    by (simp only: pw)
  then have "log 2 \<bar>real_of_int m\<bar> < real (Suc p)"
    using mp by (simp add: log_less_iff)
  then have kp: "k \<le> int p" unfolding k_def by linarith
  have "log 2 \<bar>x\<bar> = log 2 \<bar>real_of_int m\<bar> + real_of_int e"
    using mp by (simp add: x_def abs_mult log_mult)
  then have fl: "\<lfloor>log 2 \<bar>x\<bar>\<rfloor> = k + e" by (simp add: k_def)
  define n where "n = nat (int p - k)"
  have n: "real_of_int (int p - k) = real n" using kp by (simp add: n_def)
  have "x / 2 powr (real_of_int (k + e) - real p) = real_of_int m * 2 powr real_of_int (int p - k)"
    by (simp add: x_def powr_diff powr_add field_simps)
  also have "\<dots> = real_of_int m * 2 ^ n" by (simp only: n powr_realpow)
  also have "\<dots> = real_of_int (m * 2 ^ n)" by simp
  finally have q: "x / 2 powr (real_of_int (k + e) - real p) = real_of_int (m * 2 ^ n)" .
  have "round_to p x = real_of_int (m * 2 ^ n) * 2 powr (real_of_int (k + e) - real p)"
    using xnz by (simp only: round_to_def Let_def fl q lrint_of_int if_False)
  also have "\<dots> = real_of_int m * (2 powr real n * 2 powr (real_of_int (k + e) - real p))"
    by (simp add: powr_realpow)
  also have "2 powr real n * 2 powr (real_of_int (k + e) - real p) = 2 powr real_of_int e"
    by (simp only: powr_add [symmetric] n [symmetric]) simp
  finally show ?thesis by (simp only: x_def)
qed

lemma round_to_binade:
  assumes "2 powr real_of_int k \<le> \<bar>x\<bar>" and "\<bar>x\<bar> < 2 powr (real_of_int k + 1)"
  shows "round_to p x =
           real_of_int (lrint (x / 2 powr (real_of_int k - real p))) * 2 powr (real_of_int k - real p)"
proof -
  have "0 < 2 powr real_of_int k" by simp
  with assms(1) have p: "0 < \<bar>x\<bar>" by linarith
  then have nz: "x \<noteq> 0" by auto
  have "real_of_int k \<le> log 2 \<bar>x\<bar>" using assms(1) p by (simp add: le_log_iff)
  moreover have "log 2 \<bar>x\<bar> < real_of_int k + 1" using assms(2) p by (simp add: log_less_iff)
  ultimately have "\<lfloor>log 2 \<bar>x\<bar>\<rfloor> = k" by linarith
  then show ?thesis using nz by (simp add: round_to_def Let_def)
qed

text \<open>Rounding moves a value by at most \<open>2\<^sup>-\<^sup>(\<^sup>p\<^sup>+\<^sup>1\<^sup>)\<close> of itself.\<close>

lemma round_to_error:
  "\<bar>round_to p x - x\<bar> \<le> \<bar>x\<bar> / 2 ^ Suc p"
proof (cases "x = 0")
  case True
  then show ?thesis by (simp add: round_to_def)
next
  case False
  define u where "u = 2 powr (real_of_int \<lfloor>log 2 \<bar>x\<bar>\<rfloor> - real p)"
  have up: "0 < u" by (simp add: u_def)
  have "2 powr real_of_int \<lfloor>log 2 \<bar>x\<bar>\<rfloor> = u * 2 ^ p"
    by (simp add: u_def powr_diff powr_realpow)
  with binade_bounds(1) [OF False] have ux: "u * 2 ^ p \<le> \<bar>x\<bar>" by simp
  have t: "round_to p x = real_of_int (lrint (x / u)) * u"
    using False by (simp add: round_to_def Let_def u_def)
  have "\<bar>real_of_int (lrint (x / u)) - x / u\<bar> * u \<le> (1 / 2) * u"
    using up lrint_close [of "x / u"] by (intro mult_right_mono) simp_all
  moreover have "\<bar>real_of_int (lrint (x / u)) - x / u\<bar> * u = \<bar>round_to p x - x\<bar>"
  proof -
    have "\<bar>real_of_int (lrint (x / u)) - x / u\<bar> * u = \<bar>(real_of_int (lrint (x / u)) - x / u) * u\<bar>"
      using up by (simp add: abs_mult)
    also have "(real_of_int (lrint (x / u)) - x / u) * u = round_to p x - x"
      using up by (simp add: t left_diff_distrib)
    finally show ?thesis .
  qed
  ultimately have "\<bar>round_to p x - x\<bar> \<le> u / 2" by simp
  also have "u / 2 \<le> \<bar>x\<bar> / 2 ^ Suc p"
    using ux by (simp add: field_simps)
  finally show ?thesis .
qed

text \<open>The same for \<^verbatim>\<open>double\<close> and for \<^verbatim>\<open>float\<close>.\<close>

lemma to_double_zero: "to_double 0 = 0"
  by (simp add: to_double_def round_to_zero)

lemma to_double_eq_0_iff: "to_double x = 0 \<longleftrightarrow> x = 0"
  by (simp add: to_double_def round_to_eq_0_iff)

lemma to_double_nonneg: "0 \<le> x \<Longrightarrow> 0 \<le> to_double x"
  by (simp add: to_double_def round_to_nonneg)

lemma to_double_int: "\<bar>m\<bar> < 2 ^ 53 \<Longrightarrow> to_double (real_of_int m) = real_of_int m"
  using round_to_exact [of m 52 0] by (simp add: to_double_def)

lemma to_double_dyadic:
  "\<bar>m\<bar> < 2 ^ 53 \<Longrightarrow> to_double (real_of_int m / 2 ^ n) = real_of_int m / 2 ^ n"
  using round_to_exact [of m 52 "- int n"]
  by (simp add: to_double_def powr_minus powr_realpow divide_inverse)

lemma to_double_binade:
  assumes "2 powr real_of_int k \<le> \<bar>x\<bar>" and "\<bar>x\<bar> < 2 powr (real_of_int k + 1)"
  shows "to_double x = real_of_int (lrint (x / 2 powr (real_of_int k - 52))) * 2 powr (real_of_int k - 52)"
  using round_to_binade [OF assms, of 52] by (simp add: to_double_def)

lemma to_double_error: "\<bar>to_double x - x\<bar> \<le> \<bar>x\<bar> / 2 ^ 53"
  using round_to_error [of 52 x] by (simp add: to_double_def)

lemma to_float_zero: "to_float 0 = 0"
  by (simp add: to_float_def round_to_zero)

lemma to_float_eq_0_iff: "to_float x = 0 \<longleftrightarrow> x = 0"
  by (simp add: to_float_def round_to_eq_0_iff)

lemma to_float_int: "\<bar>m\<bar> < 2 ^ 24 \<Longrightarrow> to_float (real_of_int m) = real_of_int m"
  using round_to_exact [of m 23 0] by (simp add: to_float_def)

lemma to_float_dyadic:
  "\<bar>m\<bar> < 2 ^ 24 \<Longrightarrow> to_float (real_of_int m / 2 ^ n) = real_of_int m / 2 ^ n"
  using round_to_exact [of m 23 "- int n"]
  by (simp add: to_float_def powr_minus powr_realpow divide_inverse)

lemma to_float_binade:
  assumes "2 powr real_of_int k \<le> \<bar>x\<bar>" and "\<bar>x\<bar> < 2 powr (real_of_int k + 1)"
  shows "to_float x = real_of_int (lrint (x / 2 powr (real_of_int k - 23))) * 2 powr (real_of_int k - 23)"
  using round_to_binade [OF assms, of 23] by (simp add: to_float_def)

text \<open>The double of lines 134 and 146 differs from the exact per-mille value by at most
  \<open>2\<^sup>-\<^sup>4\<^sup>1\<close>, as long as the counters are below \<open>2\<^sup>5\<^sup>3\<close>.\<close>

lemma permille_value_close:
  assumes "0 \<le> c" and "c \<le> d" and "0 < d" and "d < 2 ^ 53"
  shows "\<bar>permille_value (real_of_int c) (real_of_int d) - 1000 * (real_of_int c / real_of_int d)\<bar>
           \<le> 1 / 2 ^ 41"
proof -
  define q where "q = real_of_int c / real_of_int d"
  have cd: "to_double (real_of_int c) = real_of_int c" "to_double (real_of_int d) = real_of_int d"
    using assms by (simp_all add: to_double_int)
  have q01: "0 \<le> q" "q \<le> 1" using assms by (simp_all add: q_def)
  define q' where "q' = to_double q"
  have e1: "\<bar>q' - q\<bar> \<le> q / 2 ^ 53"
    using to_double_error [of q] q01 by (simp add: q'_def)
  have "q / 2 ^ 53 \<le> 1" using q01 by (simp add: field_simps)
  with e1 have "\<bar>q' - q\<bar> \<le> 1" by linarith
  then have q'b: "\<bar>q'\<bar> \<le> 2" using q01 by linarith
  have e2: "\<bar>to_double (1000 * q') - 1000 * q'\<bar> \<le> \<bar>1000 * q'\<bar> / 2 ^ 53"
    by (rule to_double_error)
  have "\<bar>(to_double (1000 * q') - 1000 * q') + 1000 * (q' - q)\<bar>
          \<le> \<bar>to_double (1000 * q') - 1000 * q'\<bar> + \<bar>1000 * (q' - q)\<bar>"
    by (rule abs_triangle_ineq)
  moreover have "(to_double (1000 * q') - 1000 * q') + 1000 * (q' - q)
                   = to_double (1000 * q') - 1000 * q"
    by (simp add: algebra_simps)
  moreover have "\<bar>1000 * (q' - q)\<bar> = 1000 * \<bar>q' - q\<bar>"
    unfolding abs_mult by simp
  ultimately have "\<bar>to_double (1000 * q') - 1000 * q\<bar>
          \<le> \<bar>to_double (1000 * q') - 1000 * q'\<bar> + 1000 * \<bar>q' - q\<bar>"
    by (simp only:)
  also have "\<dots> \<le> 2000 / 2 ^ 53 + 1000 * (1 / 2 ^ 53)"
  proof (intro add_mono)
    have "\<bar>1000 * q'\<bar> / 2 ^ 53 \<le> 2000 / 2 ^ 53" using q'b by (simp add: abs_mult)
    with e2 show "\<bar>to_double (1000 * q') - 1000 * q'\<bar> \<le> 2000 / 2 ^ 53" by linarith
    have "q / 2 ^ 53 \<le> 1 / 2 ^ 53" using q01 by (simp add: divide_right_mono)
    with e1 have "\<bar>q' - q\<bar> \<le> 1 / 2 ^ 53" by linarith
    then show "1000 * \<bar>q' - q\<bar> \<le> 1000 * (1 / 2 ^ 53)" by simp
  qed
  also have "\<dots> \<le> 1 / 2 ^ 41" by simp
  finally show ?thesis
    by (simp only: permille_value_def cd q_def [symmetric] q'_def [symmetric])
qed

text \<open>That is enough to move a halfway case: 203 symbols of 400 are 507.5 per mille, the
  double is 507.49999999999994 and the entry is 507.\<close>

lemma permille_near_tie: "permille 203 400 = Some 507"
proof -
  have i: "to_double 203 = 203" "to_double 400 = 400"
    using to_double_int [of 203] to_double_int [of 400] by simp_all
  have "to_double (203 / 400)
          = real_of_int (lrint ((203 / 400) / 2 powr (real_of_int (- 1) - 52)))
              * 2 powr (real_of_int (- 1) - 52)"
    by (rule to_double_binade) (simp_all add: powr_minus)
  also have "(203 / 400) / 2 powr (real_of_int (- 1) - 52) = 203 * 2 ^ 53 / 400"
    by (simp add: powr_minus field_simps)
  also have "lrint (203 * 2 ^ 53 / 400) = 4571153621781053"
    by (simp add: lrint_def Let_def)
  finally have q: "to_double (203 / 400) = 4571153621781053 / 2 ^ 53"
    by (simp add: powr_minus field_simps)
  have "to_double (1000 * (4571153621781053 / 2 ^ 53))
          = real_of_int (lrint ((1000 * (4571153621781053 / 2 ^ 53)) / 2 powr (real_of_int 8 - 52)))
              * 2 powr (real_of_int 8 - 52)"
    by (rule to_double_binade) (simp_all add: powr_minus)
  also have "(1000 * (4571153621781053 / 2 ^ 53)) / 2 powr (real_of_int 8 - 52)
               = 1000 * 4571153621781053 / 2 ^ 9"
    by (simp add: powr_minus field_simps)
  also have "lrint (1000 * 4571153621781053 / 2 ^ 9) = 8928034417541119"
    by (simp add: lrint_def Let_def)
  finally have v: "to_double (1000 * (4571153621781053 / 2 ^ 53)) = 8928034417541119 / 2 ^ 44"
    by (simp add: powr_minus field_simps)
  have "permille_value 203 400 = 8928034417541119 / 2 ^ 44"
    by (simp only: permille_value_def i q v)
  moreover have "lrint (8928034417541119 / 2 ^ 44) = 507"
    by (simp add: lrint_def Let_def)
  ultimately show ?thesis
    using i by (simp add: permille_def del: power_numeral)
qed

text \<open>The quotient of line 120 is rounded to 24 bits: 299996 symbols in 3 records give
  99998.6640625, which \<^verbatim>\<open>%.2f\<close> prints as 99998.66, and not 99998.67.\<close>

lemma average_single_precision:
  "to_float (to_float 299996 / to_float 3) = 12799829 / 128"
proof -
  have i: "to_float 299996 = 299996" "to_float 3 = 3"
    using to_float_int [of 299996] to_float_int [of 3] by simp_all
  have "to_float (299996 / 3)
          = real_of_int (lrint ((299996 / 3) / 2 powr (real_of_int 16 - 23)))
              * 2 powr (real_of_int 16 - 23)"
    by (rule to_float_binade) simp_all
  also have "(299996 / 3) / 2 powr (real_of_int 16 - 23) = 299996 * 2 ^ 7 / 3"
    by (simp add: powr_minus field_simps)
  also have "lrint (299996 * 2 ^ 7 / 3) = 12799829"
    by (simp add: lrint_def Let_def)
  finally have "to_float (299996 / 3) = 12799829 / 128"
    by (simp add: powr_minus field_simps)
  then show ?thesis by (simp only: i)
qed

section \<open>The loops of the report\<close>

lemma lrint_nearest_even: "nearest_even x (lrint x)"
proof -
  have f: "real_of_int \<lfloor>x\<rfloor> \<le> x" "x < real_of_int \<lfloor>x\<rfloor> + 1" by linarith+
  show ?thesis
    unfolding nearest_even_def lrint_def Let_def using f by auto
qed

lemma nearest_even_unique: "nearest_even x k \<Longrightarrow> nearest_even x l \<Longrightarrow> k = l"
proof (rule ccontr)
  assume k: "nearest_even x k" and l: "nearest_even x l" and ne: "k \<noteq> l"
  have d: "\<bar>real_of_int k - x\<bar> \<le> 1 / 2" "\<bar>real_of_int l - x\<bar> \<le> 1 / 2"
    using k l by (simp_all add: nearest_even_def)
  then have "\<bar>real_of_int k - real_of_int l\<bar> \<le> 1" by linarith
  then have "\<bar>k - l\<bar> \<le> 1" by linarith
  with ne have c: "k = l + 1 \<or> l = k + 1" by linarith
  then have r: "real_of_int k = real_of_int l + 1 \<or> real_of_int l = real_of_int k + 1"
    by auto
  have "\<bar>real_of_int k - x\<bar> = 1 / 2" "\<bar>real_of_int l - x\<bar> = 1 / 2"
    using d r by linarith+
  then have "even k \<and> even l" using k l by (simp add: nearest_even_def)
  with c show False by auto
qed

lemma qual_loop_eq:
  "qual_loop counts d qm j e =
     (concat (map (\<lambda>k. [Lit '' '', Dec 3 (permille (counts k) d)]) [j..<Suc qm]),
      e + (\<Sum>k = j..<Suc qm. 10 powr (real k / - 10) * real_of_int (counts k)))"
proof (induction counts d qm j e rule: qual_loop.induct)
  case (1 counts d qm j erate)
  show ?case
  proof (cases "j \<le> qm")
    case True
    have u: "[j..<Suc qm] = j # [j + 1..<Suc qm]" using True by (simp add: upt_conv_Cons)
    have v: "(\<Sum>k = j..<Suc qm. 10 powr (real k / - 10) * real_of_int (counts k)) =
             10 powr (real j / - 10) * real_of_int (counts j)
             + (\<Sum>k = j + 1..<Suc qm. 10 powr (real k / - 10) * real_of_int (counts k))"
      using True by (simp add: sum.atLeast_Suc_lessThan del: sum.op_ivl_Suc)
    show ?thesis
      by (subst qual_loop.simps)
        (simp only: True if_True 1 [OF True] u v, simp del: sum.op_ivl_Suc upt_Suc)
  next
    case False
    then show ?thesis by (subst qual_loop.simps) simp
  qed
qed

lemma head_loop_eq:
  "head_loop qm i = concat (map (\<lambda>k. [Lit '' '', Dec 3 (Some (int k))]) [i..<Suc qm])"
proof (induction qm i rule: head_loop.induct)
  case (1 qm i)
  show ?case
  proof (cases "i \<le> qm")
    case True
    have u: "[i..<Suc qm] = i # [i + 1..<Suc qm]" using True by (simp add: upt_conv_Cons)
    show ?thesis
      by (subst head_loop.simps) (simp only: True if_True 1 [OF True] u, simp)
  next
    case False
    then show ?thesis by (subst head_loop.simps) simp
  qed
qed

lemma base_loop_eq:
  "base_loop st i n =
     concat (map (\<lambda>p. base_line st p (n - (\<Sum>k = i..<Suc p. nlen st k))) [i..<lengthMax st])"
proof (induction st i n rule: base_loop.induct)
  case (1 st i n)
  show ?case
  proof (cases "i < lengthMax st")
    case True
    have u: "[i..<lengthMax st] = i # [i + 1..<lengthMax st]"
      using True by (simp add: upt_conv_Cons)
    have w: "map (\<lambda>p. base_line st p (n - nlen st i - (\<Sum>k = i + 1..<Suc p. nlen st k)))
                 [i + 1..<lengthMax st]
             = map (\<lambda>p. base_line st p (n - (\<Sum>k = i..<Suc p. nlen st k))) [i + 1..<lengthMax st]"
    proof (rule map_cong)
      fix p assume "p \<in> set [i + 1..<lengthMax st]"
      then have "i < Suc p" by simp
      then have "(\<Sum>k = i..<Suc p. nlen st k) = nlen st i + (\<Sum>k = i + 1..<Suc p. nlen st k)"
        by (simp add: sum.atLeast_Suc_lessThan del: sum.op_ivl_Suc)
      then show "base_line st p (n - nlen st i - (\<Sum>k = i + 1..<Suc p. nlen st k))
                 = base_line st p (n - (\<Sum>k = i..<Suc p. nlen st k))"
        by (simp only: diff_diff_eq)
    qed simp
    have "base_loop st i n =
            base_line st i (n - nlen st i) @ base_loop st (i + 1) (n - nlen st i)"
      using True by (subst base_loop.simps) (simp add: Let_def)
    also have "base_loop st (i + 1) (n - nlen st i) =
       concat (map (\<lambda>p. base_line st p (n - nlen st i - (\<Sum>k = i + 1..<Suc p. nlen st k)))
                 [i + 1..<lengthMax st])"
      using 1 [OF True refl] .
    finally show ?thesis by (simp only: w u) simp
  next
    case False
    then show ?thesis by (subst base_loop.simps) simp
  qed
qed

lemma mean_error_pos: "qs \<noteq> [] \<Longrightarrow> 0 < mean_error qs"
proof -
  assume ne: "qs \<noteq> []"
  have "0 < (\<Sum>q\<in>set qs. real (count_list qs q) * 10 powr (- real q / 10))"
  proof (rule sum_pos)
    show "finite (set qs)" by simp
    show "set qs \<noteq> {}" using ne by simp
    fix q assume "q \<in> set qs"
    then have "count_list qs q \<noteq> 0" by (simp add: count_list_0_iff)
    then show "0 < real (count_list qs q) * 10 powr (- real q / 10)" by simp
  qed
  then show ?thesis using ne by (simp add: mean_error_def)
qed

lemma erate_scope:
  assumes c: "\<And>k. counts k = int (count_list qs k)" and b: "\<forall>q\<in>set qs. q \<le> qm"
  shows "(\<Sum>k = 0..<Suc qm. 10 powr (real k / - 10) * real_of_int (counts k))
           = (\<Sum>q\<in>set qs. real (count_list qs q) * 10 powr (- real q / 10))"
proof -
  have "(\<Sum>q\<in>set qs. real (count_list qs q) * 10 powr (- real q / 10))
         = (\<Sum>q\<in>{0..<Suc qm}. real (count_list qs q) * 10 powr (- real q / 10))"
  proof (rule sum.mono_neutral_left)
    show "finite {0..<Suc qm}" by simp
    show "set qs \<subseteq> {0..<Suc qm}" using b by auto
    show "\<forall>i\<in>{0..<Suc qm} - set qs. real (count_list qs i) * 10 powr (- real i / 10) = 0"
      by (simp add: count_list_0_iff)
  qed
  also have "\<dots> = (\<Sum>k = 0..<Suc qm. 10 powr (real k / - 10) * real_of_int (counts k))"
    by (rule sum.cong) (simp_all add: c)
  finally show ?thesis by simp
qed

lemma quality_row_scope:
  assumes c: "\<And>k. counts k = int (count_list qs k)" and ne: "qs \<noteq> []"
    and b: "\<forall>q\<in>set qs. q \<le> qm"
  shows "quality_row counts (real (length qs)) qm =
           concat (map (\<lambda>k. [Lit '' '',
                              Dec 3 (Some (lrint (permille_value (real (count_list qs k))
                                                    (real (length qs)))))])
                     [0..<Suc qm])
           @ [Lit '' '', Flt 4 1 (Some (spec_AQ qs))]"
proof -
  have d: "real (length qs) \<noteq> 0" using ne by simp
  have p: "permille (counts k) (real (length qs)) =
             Some (lrint (permille_value (real (count_list qs k)) (real (length qs))))" for k
    using d by (simp add: permille_def to_double_eq_0_iff c)
  define E where "E = (\<Sum>k = 0..<Suc qm. 10 powr (real k / - 10) * real_of_int (counts k))"
  have m: "E / real (length qs) = mean_error qs"
    by (simp only: E_def erate_scope [OF c b] mean_error_def)
  have "aq E (real (length qs)) = Some (spec_AQ qs)"
    using d mean_error_pos [OF ne]
    by (simp add: aq_def ddiv_def dlog_def m spec_AQ_def log_def)
  then have a: "aq (\<Sum>k = 0..<Suc qm. 10 powr (real k / - 10) * real_of_int (counts k)) (real (length qs))
             = Some (spec_AQ qs)"
    by (simp only: E_def)
  show ?thesis
    by (simp only: quality_row_def qual_loop_eq p Let_def prod.case add.left_neutral a)
qed

section \<open>The state at the end of the stream\<close>

lemma accumulate_cases:
  "accumulate ver r st =
     (if lengthMax st < len r \<and> MAX_LENGTH < len r
      then Inl (print_usage ver EXIT_FAILURE
                 [Lit ''read '', Str (id' r), Lit '' length = '', Dec 0 (Some (int (len r))),
                  Lit '' longer than MAX_LENGTH = '', Dec 0 (Some (int MAX_LENGTH)),
                  Lit ''; edit and recompile with larger MAX_LENGTH\<newline>''])
      else Inr (counted r st))"
proof (cases "lengthMax st < len r")
  case True
  then show ?thesis
    by (simp add: accumulate_def counted_def Let_def max_def)
next
  case False
  then have "max (lengthMax st) (len r) = lengthMax st" by simp
  with False show ?thesis
    by (cases st) (simp add: accumulate_def counted_def Let_def)
qed

lemma main_loop_Inl: "main_loop ver st fil = Inl e \<Longrightarrow> out e = usage ver \<and> code e = EXIT_FAILURE"
proof (induction ver st fil rule: main_loop.induct)
  case (1 ver st)
  then show ?case by simp
next
  case (2 ver st fil)
  then show ?case by (auto simp: print_usage_def)
next
  case (3 ver st r fil)
  show ?case
  proof (cases "lengthMax st < len r \<and> MAX_LENGTH < len r")
    case True
    with 3(2) show ?thesis by (auto simp: accumulate_cases print_usage_def)
  next
    case False
    then have a: "accumulate ver r st = Inr (counted r st)" by (simp add: accumulate_cases)
    with 3(2) have "main_loop ver (counted r st) fil = Inl e" by simp
    with 3(1) [OF a] show ?thesis .
  qed
qed

lemma main_loop_Inr:
  "lengthMax st \<le> MAX_LENGTH \<Longrightarrow> main_loop ver st fil = Inr st' \<Longrightarrow>
   \<exists>rs. fil = map Good rs \<and> (\<forall>r\<in>set rs. len r \<le> MAX_LENGTH) \<and> st' = fold counted rs st"
proof (induction ver st fil rule: main_loop.induct)
  case (1 ver st)
  then show ?case by simp
next
  case (2 ver st fil)
  then show ?case by simp
next
  case (3 ver st r fil)
  show ?case
  proof (cases "lengthMax st < len r \<and> MAX_LENGTH < len r")
    case True
    with 3(3) show ?thesis by (simp add: accumulate_cases)
  next
    case False
    then have a: "accumulate ver r st = Inr (counted r st)" by (simp add: accumulate_cases)
    from False 3(2) have l: "len r \<le> MAX_LENGTH" by linarith
    with 3(2) have m: "lengthMax (counted r st) \<le> MAX_LENGTH" by (simp add: counted_lengthMax)
    from 3(3) a have "main_loop ver (counted r st) fil = Inr st'" by simp
    from 3(1) [OF a m this] obtain rs where
      "fil = map Good rs" "\<forall>r\<in>set rs. len r \<le> MAX_LENGTH" "st' = fold counted rs (counted r st)"
      by blast
    with l have "Good r # fil = map Good (r # rs) \<and> (\<forall>x\<in>set (r # rs). len x \<le> MAX_LENGTH)
        \<and> st' = fold counted (r # rs) st"
      by simp
    then show ?thesis by (rule exI)
  qed
qed

lemma count_list_map: "count_list (map f xs) k = length (filter (\<lambda>x. f x = k) xs)"
  by (induction xs) simp_all

lemma count_list_concat: "count_list (concat xss) k = (\<Sum>xs\<leftarrow>xss. count_list xs k)"
  by (induction xss) simp_all

lemma aligned_quals: "aligned r \<Longrightarrow> quals r = map unat (qval r)"
proof -
  assume "aligned r"
  then have l: "len r = length (qval r)" by (simp add: aligned_def len_def)
  have "map (\<lambda>k. unat (qval r ! k)) [0..<length (qval r)] = map unat (map ((!) (qval r)) [0..<length (qval r)])"
    by simp
  also have "\<dots> = map unat (qval r)" by (simp only: map_nth)
  finally show ?thesis by (simp add: quals_def l)
qed

lemma aligned_scope_all: "\<forall>r\<in>set rs. aligned r \<Longrightarrow> concat (map quals rs) = scope_all rs"
  by (induction rs) (simp_all add: scope_all_def aligned_quals)

lemma final_lengthMax: "lengthMax (fold counted rs init) = Max (insert 0 (len ` set rs))"
  by (simp add: fold_lengthMax init_def del: Max_insert)

lemma final_position_nonempty:
  assumes "i < lengthMax (fold counted rs init)"
  shows "0 < longer rs i"
proof -
  have "Max (insert 0 (len ` set rs)) \<in> insert 0 (len ` set rs)"
    by (rule Max_in) simp_all
  with assms obtain r where "r \<in> set rs" "i < len r"
    unfolding final_lengthMax by auto
  then have "filter (\<lambda>r. i < len r) rs \<noteq> []"
    by (auto simp: filter_empty_conv)
  then show ?thesis by (simp add: longer_def)
qed

lemma final_remaining:
  assumes a: "\<forall>r\<in>set rs. len r \<le> MAX_LENGTH" and i: "i < lengthMax (fold counted rs init)"
  shows "nseq (fold counted rs init) - (\<Sum>k = 0..<Suc i. nlen (fold counted rs init) k)
           = int (longer rs i)"
proof -
  let ?st = "fold counted rs init"
  have "lengthMax ?st \<le> MAX_LENGTH"
    using a by (rule fold_lengthMax_le) (simp add: init_def)
  with i have b: "Suc i \<le> MAX_LENGTH" by simp
  have "(\<Sum>k = 0..<Suc i. nlen ?st k) = (\<Sum>k<Suc i. int (length (filter (\<lambda>r. True \<and> len r = k) rs)))"
    unfolding atLeast0LessThan using b by (intro sum.cong) (simp_all add: fold_nlen init_def)
  also have "\<dots> = int (length (filter (\<lambda>r. True \<and> len r < Suc i) rs))"
    by (rule sum_filter_below)
  finally have s: "(\<Sum>k = 0..<Suc i. nlen ?st k) = int (length (filter (\<lambda>r. len r < Suc i) rs))"
    by simp
  have "length rs = length (filter (\<lambda>r. len r < Suc i) rs) + length (filter (\<lambda>r. \<not> len r < Suc i) rs)"
    by (simp only: sum_length_filter_compl)
  moreover have "filter (\<lambda>r. \<not> len r < Suc i) rs = filter (\<lambda>r. i < len r) rs"
    by (intro filter_cong) auto
  ultimately have "int (length rs) - int (length (filter (\<lambda>r. len r < Suc i) rs)) = int (longer rs i)"
    by (simp add: longer_def)
  then show ?thesis by (simp only: s fold_nseq) (simp add: init_def)
qed

lemma final_base_loop:
  assumes a: "\<forall>r\<in>set rs. len r \<le> MAX_LENGTH"
  shows "base_loop (fold counted rs init) 0 (nseq (fold counted rs init)) =
           concat (map (\<lambda>i. base_line (fold counted rs init) i (int (longer rs i)))
                     [0..<lengthMax (fold counted rs init)])"
proof -
  let ?st = "fold counted rs init"
  have "map (\<lambda>p. base_line ?st p (nseq ?st - (\<Sum>k = 0..<Suc p. nlen ?st k))) [0..<lengthMax ?st]
        = map (\<lambda>i. base_line ?st i (int (longer rs i))) [0..<lengthMax ?st]"
    by (rule map_cong) (simp_all only: final_remaining [OF a] set_upt atLeastLessThan_iff)
  then show ?thesis by (simp only: base_loop_eq)
qed

section \<open>The quality counters at the end of the stream\<close>

lemma length_quals: "length (quals r) = len r"
  by (simp add: quals_def)

lemma fold_qsum_quals:
  "qsum (fold counted rs st) k = qsum st k + int (count_list (concat (map quals rs)) k)"
  by (induction rs arbitrary: st) (simp_all add: counted_qsum quals_def count_list_map)

lemma final_qsum: "qsum (fold counted rs init) k = int (count_list (concat (map quals rs)) k)"
  by (simp add: fold_qsum_quals init_def)

lemma final_total: "total' (fold counted rs init) = length (concat (map quals rs))"
  by (simp add: fold_total init_def length_concat comp_def length_quals)

lemma final_qMax_bound: "\<forall>q\<in>set (concat (map quals rs)). q \<le> qMax (fold counted rs init)"
  by (auto simp: quals_def fold_qMax_bound)

lemma final_qMax: "qMax (fold counted rs init) = Max (insert 0 (set (concat (map quals rs))))"
proof (rule Max_eqI [symmetric])
  show "finite (insert 0 (set (concat (map quals rs))))" by simp
  show "y \<le> qMax (fold counted rs init)" if "y \<in> insert 0 (set (concat (map quals rs)))" for y
    using that final_qMax_bound [of rs] by auto
  show "qMax (fold counted rs init) \<in> insert 0 (set (concat (map quals rs)))"
  proof -
    from fold_qMax_attained [of rs init]
    consider "qMax (fold counted rs init) = 0"
      | r k where "r \<in> set rs" "k < len r" "qMax (fold counted rs init) = unat (qval r ! k)"
      by (auto simp: init_def)
    then show ?thesis
    proof cases
      case 1
      then show ?thesis by simp
    next
      case 2
      have "unat (qval r ! k) \<in> set (quals r)" using 2(2) by (simp add: quals_def)
      with 2 show ?thesis by auto
    qed
  qed
qed

lemma final_pqsum:
  "\<forall>r\<in>set rs. len r \<le> MAX_LENGTH \<Longrightarrow>
   pqsum (fold counted rs init) i k = int (count_list (scope_at rs i) k)"
  by (simp add: fold_pqsum init_def scope_at_def count_list_map conj_commute)

lemma length_scope_at: "length (scope_at rs i) = longer rs i"
  by (simp add: scope_at_def longer_def)

lemma scope_at_bound: "\<forall>q\<in>set (scope_at rs i). q \<le> qMax (fold counted rs init)"
  by (auto simp: scope_at_def fold_qMax_bound)

lemma spec_AQ_uniform:
  assumes "qs \<noteq> []" and "\<forall>x\<in>set qs. x = q"
  shows "spec_AQ qs = - 10 * log 10 (10 powr (- real q / 10))"
proof -
  have s: "set qs = {q}" using assms by (cases qs) auto
  have "filter ((=) q) qs = qs" using assms(2) by (intro filter_True) auto
  then have c: "count_list qs q = length qs" by (simp add: count_list_eq_length_filter)
  have "mean_error qs = 10 powr (- real q / 10)"
    using assms(1) by (simp add: mean_error_def s c)
  then show ?thesis by (simp add: spec_AQ_def)
qed

section \<open>Finite values in the report\<close>

lemma finite_usage: "\<forall>t\<in>set (usage ver). finite_tok t"
  by (simp add: usage_def)

lemma finite_summary: "\<forall>t\<in>set (summary st). finite_tok t"
  by (simp add: summary_def div_float_def to_float_eq_0_iff)

lemma finite_head_loop: "\<forall>t\<in>set (head_loop qm i). finite_tok t"
  by (auto simp: head_loop_eq)

lemma finite_composition: "d \<noteq> 0 \<Longrightarrow> \<forall>t\<in>set (composition counts d). finite_tok t"
  by (simp add: composition_def pct_def div_double_def to_double_eq_0_iff)

lemma deviation_value:
  assumes "0 < n"
  shows "deviation n =
           Some (to_double (100 * to_double (to_double (sqrt (to_double (0.25 * to_double n)))
                                              / to_double n)))"
proof -
  have "0 \<le> to_double n" using assms by (intro to_double_nonneg) simp
  then have "0 \<le> to_double (0.25 * to_double n)" by (intro to_double_nonneg) simp
  moreover have "to_double n \<noteq> 0" using assms by (simp add: to_double_eq_0_iff)
  ultimately show ?thesis by (simp add: deviation_def dsqrt_def div_double_def)
qed

lemma finite_deviation: "0 < n \<Longrightarrow> \<exists>v. deviation n = Some v"
  by (simp add: deviation_value)

lemma finite_quality_row:
  assumes "\<And>k. counts k = int (count_list qs k)" and "qs \<noteq> []" and "\<forall>q\<in>set qs. q \<le> qm"
  shows "\<forall>t\<in>set (quality_row counts (real (length qs)) qm). finite_tok t"
  by (simp only: quality_row_scope [OF assms]) auto

lemma finite_base_line:
  assumes a: "\<forall>r\<in>set rs. len r \<le> MAX_LENGTH" and i: "i < lengthMax (fold counted rs init)"
  shows "\<forall>t\<in>set (base_line (fold counted rs init) i (int (longer rs i))). finite_tok t"
proof -
  have pos: "0 < longer rs i" using i by (rule final_position_nonempty)
  then have ne: "scope_at rs i \<noteq> []" by (simp only: length_scope_at [symmetric]) simp
  have d: "real_of_int (int (longer rs i)) = real (length (scope_at rs i))"
    by (simp add: length_scope_at)
  have "\<forall>t\<in>set (quality_row (pqsum (fold counted rs init) i) (real (length (scope_at rs i)))
                   (qMax (fold counted rs init))). finite_tok t"
    by (rule finite_quality_row [OF final_pqsum [OF a] ne scope_at_bound])
  moreover have "\<forall>t\<in>set (composition (psum (fold counted rs init) i)
                   (real (length (scope_at rs i)))). finite_tok t"
    using pos by (intro finite_composition) (simp add: length_scope_at)
  ultimately show ?thesis by (simp only: base_line_def d) auto
qed

lemma finite_numeric_section:
  assumes a: "\<forall>r\<in>set rs. len r \<le> MAX_LENGTH" and t: "total' (fold counted rs init) \<noteq> 0"
  shows "\<forall>t\<in>set (numeric_section (fold counted rs init)). finite_tok t"
proof -
  let ?st = "fold counted rs init"
  have ne: "concat (map quals rs) \<noteq> []" using t by (simp only: final_total) simp
  have "rs \<noteq> []" using ne by auto
  then have n: "0 < real_of_int (nseq ?st)" by (simp add: fold_nseq init_def)
  have tp: "0 < real (total' ?st)" using t by simp
  obtain v w where dv: "deviation (real (total' ?st)) = Some v"
    "deviation (real_of_int (nseq ?st)) = Some w"
    using finite_deviation [OF tp] finite_deviation [OF n] by blast
  have q: "\<forall>t\<in>set (quality_row (qsum ?st) (real (total' ?st)) (qMax ?st)). finite_tok t"
    unfolding final_total by (rule finite_quality_row [OF final_qsum ne final_qMax_bound])
  have c: "\<forall>t\<in>set (composition (sum' ?st) (real (total' ?st))). finite_tok t"
    using t by (intro finite_composition) simp
  have b: "\<forall>t\<in>set (base_loop ?st 0 (nseq ?st)). finite_tok t"
    using finite_base_line [OF a] by (simp only: final_base_loop [OF a]) auto
  show ?thesis
    using q c b finite_head_loop [of "qMax ?st" 0]
    by (simp only: numeric_section_def dv) auto
qed

lemma finite_process: "\<forall>t\<in>set (out (process ver fil)). finite_tok t"
proof (cases "main_loop ver init fil")
  case (Inl e)
  then show ?thesis
    using main_loop_Inl [OF Inl] finite_usage by (simp add: process_def)
next
  case (Inr st)
  have "lengthMax init \<le> MAX_LENGTH" by (simp add: init_def)
  from main_loop_Inr [OF this Inr] obtain rs where
    rs: "\<forall>r\<in>set rs. len r \<le> MAX_LENGTH" "st = fold counted rs init"
    by blast
  have "\<forall>t\<in>set (report st). finite_tok t"
    using finite_summary [of st] finite_numeric_section [OF rs(1)]
    by (auto simp: report_def rs(2))
  then show ?thesis using Inr by (simp add: process_def)
qed

section \<open>The report in terms of the input\<close>

lemma length_filter_nth:
  "length (filter (\<lambda>k. P (xs ! k)) [0..<length xs]) = length (filter P xs)"
proof -
  have "filter P xs = filter P (map ((!) xs) [0..<length xs])" by (simp only: map_nth)
  also have "\<dots> = map ((!) xs) (filter (P \<circ> (!) xs) [0..<length xs])" by (simp only: filter_map)
  finally show ?thesis by (simp add: comp_def)
qed

lemma fold_sum_symbols:
  "sum' (fold counted rs st) b = sum' st b + int (count_list (symbols_all rs) b)"
proof (induction rs arbitrary: st)
  case Nil
  show ?case by (simp add: symbols_all_def)
next
  case (Cons r rs)
  have "length (filter (\<lambda>k. index_of (seq r ! k) = b) [0..<len r])
          = count_list (map index_of (seq r)) b"
    using length_filter_nth [of "\<lambda>s. index_of s = b" "seq r"]
    by (simp add: len_def count_list_map)
  then show ?case
    using Cons [of "counted r st"] by (simp add: counted_sum symbols_all_def)
qed

lemma final_sum: "sum' (fold counted rs init) b = int (count_list (symbols_all rs) b)"
  by (simp add: fold_sum_symbols init_def)

lemma final_psum:
  "\<forall>r\<in>set rs. len r \<le> MAX_LENGTH \<Longrightarrow>
   psum (fold counted rs init) i b = int (count_list (symbols_at rs i) b)"
  by (simp add: fold_psum init_def symbols_at_def count_list_map conj_commute)

lemma final_max_length: "lengthMax (fold counted rs init) = max_length rs"
  by (simp only: final_lengthMax max_length_def)

lemma final_max_quality:
  "\<forall>r\<in>set rs. aligned r \<Longrightarrow> qMax (fold counted rs init) = max_quality rs"
  by (simp only: final_qMax max_quality_def aligned_scope_all)

lemma pct_count: "d \<noteq> 0 \<Longrightarrow> pct (int c) (real d) = Some (percent c d)"
  by (simp add: pct_def div_double_def to_double_eq_0_iff percent_def)

lemma composition_percents:
  assumes "\<And>b. counts b = int (count_list syms b)" and "d \<noteq> 0"
  shows "composition counts (real d) = percents syms d"
  by (simp add: composition_def percents_def assms pct_count)

lemma quality_row_tokens:
  assumes "\<And>k. counts k = int (count_list qs k)" and "qs \<noteq> []" and "\<forall>q\<in>set qs. q \<le> qm"
  shows "quality_row counts (real (length qs)) qm =
           entry_tokens (\<lambda>q. lrint (per_mille (count_list qs q) (length qs))) qm
           @ [Lit '' '', Flt 4 1 (Some (spec_AQ qs))]"
  using quality_row_scope [OF assms]
  by (simp add: entry_tokens_def per_mille_def permille_value_def)

lemma summary_of_input:
  assumes "rs \<noteq> []"
  shows "summary (fold counted rs init) =
           [Dec 0 (Some (int (length rs))), Lit '' sequences, '',
            Dec 0 (Some (int (sum_list (map len rs)))), Lit '' total length'', Lit '', '',
            Flt 0 2 (Some (to_float (to_float (real (sum_list (map len rs)))
                                      / to_float (real (length rs))))),
            Lit '' average, '', Dec 0 (Some (int (max_length rs))), Lit '' max'', Lit ''\<newline>'']"
proof -
  let ?st = "fold counted rs init"
  have n: "nseq ?st = int (length rs)" by (simp add: fold_nseq init_def)
  have t: "total' ?st = sum_list (map len rs)" by (simp add: fold_total init_def)
  show ?thesis
    using assms
    by (simp add: summary_def n t final_max_length div_float_def to_float_eq_0_iff)
qed

lemma average_token:
  assumes "rs \<noteq> []"
  shows "(summary (fold counted rs init) @ rest) ! 5 =
           Flt 0 2 (Some (to_float (to_float (real (sum_list (map len rs)))
                                     / to_float (real (length rs)))))"
  by (simp add: summary_of_input [OF assms])

lemma total_nonzero:
  assumes "sum_list (map len rs) \<noteq> 0"
  shows "rs \<noteq> []" and "concat (map quals rs) \<noteq> []"
proof -
  show "rs \<noteq> []" using assms by auto
  have l: "length (concat (map quals rs)) = sum_list (map len rs)"
    by (simp add: length_concat comp_def length_quals)
  have "length (concat (map quals rs)) \<noteq> 0" unfolding l by (rule assms)
  then show "concat (map quals rs) \<noteq> []" by (simp only: length_0_conv simp_thms)
qed

lemma head_of_input:
  assumes al: "\<forall>r\<in>set rs. aligned r" and t: "sum_list (map len rs) \<noteq> 0"
  shows "summary (fold counted rs init)
         @ [Lit ''Standard deviations at 0.25:  total '',
            Flt 5 2 (deviation (real (total' (fold counted rs init)))),
            Lit '' %, per base '', Flt 5 2 (deviation (real_of_int (nseq (fold counted rs init)))),
            Lit '' %\<newline>'']
         @ [Lit ''            A    C    G    T    N '']
         @ head_loop (qMax (fold counted rs init)) 0
         @ [Lit '' AQ\<newline>Total  '']
         = report_head rs"
proof -
  let ?st = "fold counted rs init"
  have ne: "rs \<noteq> []" using t by (rule total_nonzero)
  have n: "real_of_int (nseq ?st) = real (length rs)" by (simp add: fold_nseq init_def)
  have tt: "total' ?st = sum_list (map len rs)" by (simp add: fold_total init_def)
  have tp: "0 < real (sum_list (map len rs))"
    using t by (cases "sum_list (map len rs)") simp_all
  have np: "0 < real (length rs)"
    using ne by (cases rs) simp_all
  have d1: "deviation (real (sum_list (map len rs))) = Some (spec_deviation (sum_list (map len rs)))"
    by (simp only: deviation_value [OF tp] spec_deviation_def)
  have d2: "deviation (real (length rs)) = Some (spec_deviation (length rs))"
    by (simp only: deviation_value [OF np] spec_deviation_def)
  show ?thesis
    by (simp only: summary_of_input [OF ne] n tt d1 d2 head_loop_eq final_max_quality [OF al]
        report_head_def)
      simp
qed

lemma total_line_of_input:
  assumes al: "\<forall>r\<in>set rs. aligned r" and t: "sum_list (map len rs) \<noteq> 0"
  shows "composition (sum' (fold counted rs init)) (real (total' (fold counted rs init)))
         @ quality_row (qsum (fold counted rs init)) (real (total' (fold counted rs init)))
             (qMax (fold counted rs init))
         = total_line rs"
proof -
  let ?st = "fold counted rs init"
  have sc: "concat (map quals rs) = scope_all rs" using al by (rule aligned_scope_all)
  have tt: "total' ?st = sum_list (map len rs)" by (simp add: fold_total init_def)
  have l: "length (scope_all rs) = sum_list (map len rs)"
    by (simp only: sc [symmetric]) (simp add: length_concat comp_def length_quals)
  have ne: "scope_all rs \<noteq> []" using t l by auto
  have c: "composition (sum' ?st) (real (sum_list (map len rs)))
             = percents (symbols_all rs) (sum_list (map len rs))"
    using t by (intro composition_percents final_sum)
  have q: "quality_row (qsum ?st) (real (length (scope_all rs))) (qMax ?st) =
             entry_tokens (\<lambda>q. lrint (per_mille (count_list (scope_all rs) q) (length (scope_all rs))))
               (qMax ?st)
             @ [Lit '' '', Flt 4 1 (Some (spec_AQ (scope_all rs)))]"
  proof (rule quality_row_tokens)
    show "qsum ?st k = int (count_list (scope_all rs) k)" for k
      by (simp only: final_qsum sc)
    show "scope_all rs \<noteq> []" by (rule ne)
    show "\<forall>q\<in>set (scope_all rs). q \<le> qMax ?st"
      using final_qMax_bound [of rs] by (simp only: sc)
  qed
  show ?thesis
    using q by (simp only: tt c l final_max_quality [OF al] total_line_def)
qed

lemma position_line_of_input:
  assumes a: "\<forall>r\<in>set rs. len r \<le> MAX_LENGTH" and al: "\<forall>r\<in>set rs. aligned r"
    and i: "i < max_length rs"
  shows "base_line (fold counted rs init) i (int (longer rs i)) = position_line rs i"
proof -
  let ?st = "fold counted rs init"
  have i': "i < lengthMax ?st" using i by (simp only: final_max_length)
  have pos: "0 < longer rs i" using i' by (rule final_position_nonempty)
  then have ne: "scope_at rs i \<noteq> []" by (simp only: length_scope_at [symmetric]) simp
  have d: "real_of_int (int (longer rs i)) = real (longer rs i)" by simp
  have c: "composition (psum ?st i) (real (longer rs i)) = percents (symbols_at rs i) (longer rs i)"
    using pos by (intro composition_percents final_psum [OF a]) simp
  have "quality_row (pqsum ?st i) (real (length (scope_at rs i))) (qMax ?st) =
          entry_tokens (\<lambda>q. lrint (per_mille (count_list (scope_at rs i) q) (length (scope_at rs i))))
            (qMax ?st)
          @ [Lit '' '', Flt 4 1 (Some (spec_AQ (scope_at rs i)))]"
    by (rule quality_row_tokens [OF final_pqsum [OF a] ne scope_at_bound])
  then have q: "quality_row (pqsum ?st i) (real (longer rs i)) (qMax ?st) =
          entry_tokens (\<lambda>q. lrint (per_mille (count_list (scope_at rs i) q) (longer rs i)))
            (max_quality rs)
          @ [Lit '' '', Flt 4 1 (Some (spec_AQ (scope_at rs i)))]"
    by (simp only: length_scope_at final_max_quality [OF al])
  show ?thesis
    by (simp only: base_line_def d c q position_line_def)
qed

lemma report_of_input:
  assumes a: "\<forall>r\<in>set rs. len r \<le> MAX_LENGTH" and al: "\<forall>r\<in>set rs. aligned r"
    and t: "sum_list (map len rs) \<noteq> 0"
  shows "report (fold counted rs init) =
           report_head rs @ total_line rs
           @ concat (map (position_line rs) [0..<max_length rs]) @ [Lit ''\<newline>'']"
proof -
  let ?st = "fold counted rs init"
  have tt: "total' ?st \<noteq> 0" using t by (simp add: fold_total init_def)
  have "map (\<lambda>i. base_line ?st i (int (longer rs i))) [0..<max_length rs]
          = map (position_line rs) [0..<max_length rs]"
    by (rule map_cong) (simp_all add: position_line_of_input [OF a al])
  then have b: "base_loop ?st 0 (nseq ?st) = concat (map (position_line rs) [0..<max_length rs])"
    by (simp only: final_base_loop [OF a] final_max_length)
  have "report ?st =
          (summary ?st
           @ [Lit ''Standard deviations at 0.25:  total '', Flt 5 2 (deviation (real (total' ?st))),
              Lit '' %, per base '', Flt 5 2 (deviation (real_of_int (nseq ?st))), Lit '' %\<newline>'']
           @ [Lit ''            A    C    G    T    N '']
           @ head_loop (qMax ?st) 0
           @ [Lit '' AQ\<newline>Total  ''])
          @ (composition (sum' ?st) (real (total' ?st))
             @ quality_row (qsum ?st) (real (total' ?st)) (qMax ?st))
          @ base_loop ?st 0 (nseq ?st) @ [Lit ''\<newline>'']"
    using tt by (simp add: report_def numeric_section_def)
  then show ?thesis
    by (simp only: head_of_input [OF al t] total_line_of_input [OF al t] b)
qed

section \<open>The counters of a run without a write out of bounds\<close>

text \<open>After records shorter than \<^verbatim>\<open>MAX_LENGTH\<close> no access has left its array, \<^verbatim>\<open>nseq\<close> is the
  number of records, \<^verbatim>\<open>total\<close> the sum of their lengths, the five counters \<^verbatim>\<open>psum[i][.]\<close> of
  every position \<open>i\<close> add up to the number of records longer than \<open>i\<close>, and the five
  counters \<^verbatim>\<open>sum[.]\<close> add up to \<^verbatim>\<open>total\<close>.\<close>

lemma counters_in_bounds:
  assumes "\<forall>r\<in>set rs. len r < MAX_LENGTH"
  shows "\<exists>st. main_loop ver init (map Good rs) = Inr st
           \<and> \<not> oob st
           \<and> nseq st = int (length rs)
           \<and> total' st = sum_list (map len rs)
           \<and> (\<forall>i. (\<Sum>b<5. psum st i b) = int (longer rs i))
           \<and> (\<Sum>b<5. sum' st b) = int (total' st)"
proof -
  let ?st = "fold counted rs init"
  have a: "\<forall>r\<in>set rs. len r \<le> MAX_LENGTH" using assms by auto
  have run: "main_loop ver init (map Good rs) = Inr ?st"
    using a by (rule main_loop_good)
  have o: "\<not> oob ?st" using assms by (auto simp: fold_oob init_def)
  have n: "nseq ?st = int (length rs)"
    by (simp add: fold_nseq init_def)
  have t: "total' ?st = sum_list (map len rs)"
    by (simp add: fold_total init_def)
  have p: "(\<Sum>b<5. psum ?st i b) = int (longer rs i)" for i
  proof -
    have "(\<Sum>b<5. psum ?st i b) =
          (\<Sum>b<5. int (length (filter (\<lambda>r. i < len r \<and> index_of (seq r ! i) = b) rs)))"
      using a by (simp add: fold_psum init_def)
    also have "\<dots> = int (length (filter (\<lambda>r. i < len r) rs))"
      by (rule sum_filter_classes) (rule index_of_less)
    finally show ?thesis by (simp add: longer_def)
  qed
  have s: "(\<Sum>b<5. sum' ?st b) = int (total' ?st)"
  proof -
    have one: "(\<Sum>b<5. int (length (filter (\<lambda>k. index_of (seq r ! k) = b) [0..<len r]))) = int (len r)"
      for r
      using sum_filter_classes [of "[0..<len r]" "\<lambda>k. index_of (seq r ! k)" 5 "\<lambda>_. True"]
      by (simp add: index_of_less)
    have "(\<Sum>b<5. sum' ?st b) =
          (\<Sum>b<5. \<Sum>r\<leftarrow>rs. int (length (filter (\<lambda>k. index_of (seq r ! k) = b) [0..<len r])))"
      by (simp add: fold_sum init_def)
    also have "\<dots> = (\<Sum>r\<leftarrow>rs. int (len r))"
      by (simp only: sum_sum_list_swap one)
    also have "\<dots> = int (sum_list (map len rs))"
      by (induction rs) simp_all
    finally show ?thesis by (simp only: t)
  qed
  from run o n t p s show ?thesis by blast
qed

section \<open>The whole run\<close>

lemma main_stdin:
  "main \<lparr>args = [], fopen = f, stdin = fil, PACKAGE_VERSION = ver\<rparr> = process ver fil"
  by (simp add: main_def)

lemma main_good:
  "\<forall>r\<in>set rs. len r \<le> MAX_LENGTH \<Longrightarrow>
   main \<lparr>args = [], fopen = f, stdin = map Good rs, PACKAGE_VERSION = ver\<rparr> =
     \<lparr>code = EXIT_SUCCESS, out = report (fold counted rs init), err = []\<rparr>"
  by (simp add: main_def process_def main_loop_good)

lemma out_main_of_input:
  assumes "\<forall>r\<in>set rs. len r < MAX_LENGTH \<and> aligned r" and "sum_list (map len rs) \<noteq> 0"
  shows "out (main \<lparr>args = [], fopen = f, stdin = map Good rs, PACKAGE_VERSION = ver\<rparr>) =
           report_head rs @ total_line rs
           @ concat (map (position_line rs) [0..<max_length rs]) @ [Lit ''\<newline>'']"
proof -
  have a: "\<forall>r\<in>set rs. len r \<le> MAX_LENGTH" using assms(1) by auto
  have al: "\<forall>r\<in>set rs. aligned r" using assms(1) by auto
  show ?thesis
    by (simp only: main_good [OF a] report_of_input [OF a al assms(2)] outcome.simps)
qed

section \<open>Two records\<close>

lemma two_reads_accepted:
  "\<forall>r\<in>set [read_AC, read_G]. len r < MAX_LENGTH \<and> aligned r"
  by (simp add: read_AC_def read_G_def len_def aligned_def MAX_LENGTH_def)

lemma two_reads_sizes:
  "sum_list (map len [read_AC, read_G]) = 3" "max_length [read_AC, read_G] = 2"
  "max_quality [read_AC, read_G] = 1" "longer [read_AC, read_G] 0 = 2"
  "longer [read_AC, read_G] 1 = 1" "longer [read_AC, read_G] (Suc 0) = 1"
  "len read_AC = 2" "len read_G = 1"
  by (simp_all add: read_AC_def read_G_def len_def max_length_def max_quality_def scope_all_def
      longer_def)

lemma two_reads_scopes:
  "scope_all [read_AC, read_G] = [1, 0, 0]" "scope_at [read_AC, read_G] 0 = [1, 0]"
  "scope_at [read_AC, read_G] 1 = [0]" "symbols_at [read_AC, read_G] 0 = [idx_A, idx_G]"
  "symbols_at [read_AC, read_G] 1 = [idx_C]"
  "scope_at [read_AC, read_G] (Suc 0) = [0]" "symbols_at [read_AC, read_G] (Suc 0) = [idx_C]"
  by (simp_all add: read_AC_def read_G_def len_def scope_all_def scope_at_def symbols_at_def)

lemma upt_small: "[0..<2] = [0, 1]" "[0..<Suc 1] = [0, 1]"
  by (simp_all add: upt_rec)

lemma two_reads_mean_error:
  "mean_error [1, 0, 0] = (10 powr (- 1 / 10) + 2) / 3"
  "mean_error [1, 0] = (10 powr (- 1 / 10) + 1) / 2"
  "mean_error [0] = 1"
  "mean_error [Suc 0, 0, 0] = (10 powr (- 1 / 10) + 2) / 3"
  "mean_error [Suc 0, 0] = (10 powr (- 1 / 10) + 1) / 2"
  by (simp_all add: mean_error_def)

section \<open>A record with a halfway case\<close>

lemma tie_record_accepted:
  "\<forall>r\<in>set [tie_record]. len r < MAX_LENGTH \<and> aligned r"
  by (simp add: tie_record_def len_def aligned_def MAX_LENGTH_def)

lemma tie_record_sizes:
  "sum_list (map len [tie_record]) = 16" "max_length [tie_record] = 16"
  "max_quality [tie_record] = 1"
  "count_list (scope_all [tie_record]) 0 = 15" "count_list (scope_all [tie_record]) 1 = 1"
  by (simp_all add: tie_record_def len_def max_length_def max_quality_def scope_all_def)

lemma per_mille_tie: "per_mille 15 16 = 1875 / 2" "per_mille 1 16 = 125 / 2"
proof -
  have d: "to_double 1 = 1" "to_double 15 = 15" "to_double 16 = 16"
    "to_double (1 / 16) = 1 / 16" "to_double (15 / 16) = 15 / 16"
    "to_double (125 / 2) = 125 / 2" "to_double (1875 / 2) = 1875 / 2"
    using to_double_int [of 1] to_double_int [of 15] to_double_int [of 16]
      to_double_dyadic [of 1 4] to_double_dyadic [of 15 4]
      to_double_dyadic [of 125 1] to_double_dyadic [of 1875 1]
    by simp_all
  show "per_mille 15 16 = 1875 / 2" "per_mille 1 16 = 125 / 2"
    by (simp_all add: per_mille_def d)
qed

section \<open>Opening the input\<close>

text \<open>
  Claim C1. With one file argument that can be opened, the program should process the
  records of that file. The code takes the last branch of lines 84 to 93 instead: it
  prints the usage text and leaves with \<^verbatim>\<open>EXIT_SUCCESS\<close>, whatever the file holds. Here the
  file holds one well-formed record; nothing of it reaches the output.
\<close>

theorem main_file_argument_only_usage:
  "main \<lparr>args = [''lane1.fastq''],
         fopen = (\<lambda>_. Some [Good \<lparr>id' = ''r1'', seq = [Base_A], qval = [30]\<rparr>]),
         stdin = [], PACKAGE_VERSION = ''1.1''\<rparr>
   = \<lparr>code = EXIT_SUCCESS, out = usage ''1.1'', err = []\<rparr>
   \<and> process ''1.1'' [Good \<lparr>id' = ''r1'', seq = [Base_A], qval = [30]\<rparr>]
     \<noteq> \<lparr>code = EXIT_SUCCESS, out = usage ''1.1'', err = []\<rparr>"
  by (simp add: main_def print_usage_def process_def usage_def report_def summary_def
      accumulate_def len_def MAX_LENGTH_def init_def)

section \<open>The denominators of the position lines\<close>

text \<open>
  Claim C2. For every position \<open>i\<close> from 0 to \<^verbatim>\<open>lengthMax - 1\<close>, the denominator of line \<open>i\<close>
  (of its percentages and of its per-mille entries) is the number of records longer than
  \<open>i\<close>. The loop gets it by subtracting \<^verbatim>\<open>nlen[0]\<close>, ..., \<^verbatim>\<open>nlen[i]\<close> in turn from \<^verbatim>\<open>nseq\<close>,
  which starts at the number of records.

  The statement is about the standard output of a run over records shorter than
  \<^verbatim>\<open>MAX_LENGTH\<close>, with as many quality values as symbols, at least one of them not empty:
  after the head and the line \<^verbatim>\<open>Total\<close> it holds one line per position \<open>i\<close> below the largest
  length, whose percentages and per-mille entries are those of the symbols at \<open>i\<close> over
  the denominator \<open>longer rs i\<close>.
\<close>

theorem remaining_at_position:
  assumes "\<forall>r\<in>set rs. len r < MAX_LENGTH \<and> aligned r" and "sum_list (map len rs) \<noteq> 0"
  shows "out (main \<lparr>args = [], fopen = f, stdin = map Good rs, PACKAGE_VERSION = ver\<rparr>) =
           report_head rs @ total_line rs
           @ concat (map (\<lambda>i. [Lit ''\<newline>base '', Dec 2 (Some (int i + 1))]
                              @ percents (symbols_at rs i) (longer rs i)
                              @ entry_tokens
                                  (\<lambda>q. lrint (per_mille (count_list (scope_at rs i) q) (longer rs i)))
                                  (max_quality rs)
                              @ [Lit '' '', Flt 4 1 (Some (spec_AQ (scope_at rs i)))])
                       [0..<max_length rs])
           @ [Lit ''\<newline>'']
         \<and> (\<exists>st. main_loop ver init (map Good rs) = Inr st
                \<and> nseq st = int (length rs) \<and> lengthMax st = max_length rs
                \<and> (\<forall>i<max_length rs.
                      nseq st - (\<Sum>k = 0..<Suc i. nlen st k) = int (longer rs i)))"
proof
  show "out (main \<lparr>args = [], fopen = f, stdin = map Good rs, PACKAGE_VERSION = ver\<rparr>) =
           report_head rs @ total_line rs
           @ concat (map (\<lambda>i. [Lit ''\<newline>base '', Dec 2 (Some (int i + 1))]
                              @ percents (symbols_at rs i) (longer rs i)
                              @ entry_tokens
                                  (\<lambda>q. lrint (per_mille (count_list (scope_at rs i) q) (longer rs i)))
                                  (max_quality rs)
                              @ [Lit '' '', Flt 4 1 (Some (spec_AQ (scope_at rs i)))])
                       [0..<max_length rs])
           @ [Lit ''\<newline>'']"
    using out_main_of_input [OF assms, of f ver] by (simp only: position_line_def [abs_def])
  let ?st = "fold counted rs init"
  have a: "\<forall>r\<in>set rs. len r \<le> MAX_LENGTH" using assms(1) by auto
  have "main_loop ver init (map Good rs) = Inr ?st"
    using a by (rule main_loop_good)
  moreover have "nseq ?st = int (length rs)"
    by (simp add: fold_nseq init_def)
  moreover have "lengthMax ?st = max_length rs"
    by (rule final_max_length)
  moreover have "\<forall>i<max_length rs. nseq ?st - (\<Sum>k = 0..<Suc i. nlen ?st k) = int (longer rs i)"
    using final_remaining [OF a] by (simp only: final_max_length) blast
  ultimately show "\<exists>st. main_loop ver init (map Good rs) = Inr st
                \<and> nseq st = int (length rs) \<and> lengthMax st = max_length rs
                \<and> (\<forall>i<max_length rs.
                      nseq st - (\<Sum>k = 0..<Suc i. nlen st k) = int (longer rs i))"
    by blast
qed

theorem remaining_at_position_witness:
  "len read_AC < MAX_LENGTH \<and> aligned read_AC \<and> len read_G < MAX_LENGTH \<and> aligned read_G
   \<and> sum_list (map len [read_AC, read_G]) \<noteq> 0
   \<and> out (main \<lparr>args = [], fopen = (\<lambda>_. None), stdin = [Good read_AC, Good read_G],
                PACKAGE_VERSION = ''1.1''\<rparr>) =
       report_head [read_AC, read_G] @ total_line [read_AC, read_G]
       @ [Lit ''\<newline>base '', Dec 2 (Some 1),
          Lit ''  '', Flt 4 1 (Some 50), Lit '' '', Flt 4 1 (Some 0), Lit '' '', Flt 4 1 (Some 50),
          Lit '' '', Flt 4 1 (Some 0), Lit '' '', Flt 4 1 (Some 0), Lit '' '',
          Lit '' '', Dec 3 (Some 500), Lit '' '', Dec 3 (Some 500),
          Lit '' '', Flt 4 1 (Some (spec_AQ [1, 0])),
          Lit ''\<newline>base '', Dec 2 (Some 2),
          Lit ''  '', Flt 4 1 (Some 0), Lit '' '', Flt 4 1 (Some 100), Lit '' '', Flt 4 1 (Some 0),
          Lit '' '', Flt 4 1 (Some 0), Lit '' '', Flt 4 1 (Some 0), Lit '' '',
          Lit '' '', Dec 3 (Some 1000), Lit '' '', Dec 3 (Some 0),
          Lit '' '', Flt 4 1 (Some (spec_AQ [0])),
          Lit ''\<newline>'']
   \<and> (\<exists>st. main_loop ''1.1'' init [Good read_AC, Good read_G] = Inr st
          \<and> nseq st = 2 \<and> nseq st - nlen st 0 = 2 \<and> nseq st - nlen st 0 - nlen st 1 = 1)"
proof -
  let ?rs = "[read_AC, read_G]"
  have h: "\<forall>r\<in>set ?rs. len r < MAX_LENGTH \<and> aligned r" by (rule two_reads_accepted)
  have t: "sum_list (map len ?rs) \<noteq> 0" unfolding two_reads_sizes by simp
  note inst = remaining_at_position [OF h t, of "\<lambda>_. None" "''1.1''"]
  have d: "to_double 0 = 0" "to_double 1 = 1" "to_double 2 = 2"
    "to_double (1 / 2) = 1 / 2" "to_double 50 = 50" "to_double 100 = 100"
    "to_double 500 = 500" "to_double 1000 = 1000"
    using to_double_int [of 0] to_double_int [of 1] to_double_int [of 2]
      to_double_dyadic [of 1 1] to_double_int [of 50] to_double_int [of 100]
      to_double_int [of 500] to_double_int [of 1000]
    by simp_all
  have l: "lrint 0 = 0" "lrint 500 = 500" "lrint 1000 = 1000"
    by (simp_all add: lrint_def)
  have o: "out (main \<lparr>args = [], fopen = (\<lambda>_. None), stdin = [Good read_AC, Good read_G],
                PACKAGE_VERSION = ''1.1''\<rparr>) =
       report_head [read_AC, read_G] @ total_line [read_AC, read_G]
       @ [Lit ''\<newline>base '', Dec 2 (Some 1),
          Lit ''  '', Flt 4 1 (Some 50), Lit '' '', Flt 4 1 (Some 0), Lit '' '', Flt 4 1 (Some 50),
          Lit '' '', Flt 4 1 (Some 0), Lit '' '', Flt 4 1 (Some 0), Lit '' '',
          Lit '' '', Dec 3 (Some 500), Lit '' '', Dec 3 (Some 500),
          Lit '' '', Flt 4 1 (Some (spec_AQ [1, 0])),
          Lit ''\<newline>base '', Dec 2 (Some 2),
          Lit ''  '', Flt 4 1 (Some 0), Lit '' '', Flt 4 1 (Some 100), Lit '' '', Flt 4 1 (Some 0),
          Lit '' '', Flt 4 1 (Some 0), Lit '' '', Flt 4 1 (Some 0), Lit '' '',
          Lit '' '', Dec 3 (Some 1000), Lit '' '', Dec 3 (Some 0),
          Lit '' '', Flt 4 1 (Some (spec_AQ [0])),
          Lit ''\<newline>'']"
    using conjunct1 [OF inst]
    by (simp only: two_reads_sizes two_reads_scopes upt_small)
      (simp add: percents_def entry_tokens_def percent_def per_mille_def idx_defs d l upt_small
        two_reads_sizes two_reads_scopes)
  from conjunct2 [OF inst] obtain st where
    r: "main_loop ''1.1'' init (map Good ?rs) = Inr st" and n: "nseq st = int (length ?rs)"
    and s: "\<forall>i<max_length ?rs. nseq st - (\<Sum>k = 0..<Suc i. nlen st k) = int (longer ?rs i)"
    by blast
  have "0 < max_length ?rs" "1 < max_length ?rs" by (simp_all add: two_reads_sizes)
  from s [rule_format, OF this(1)] s [rule_format, OF this(2)]
  have s2: "nseq st - nlen st 0 = 2" "nseq st - nlen st 0 - nlen st 1 = 1"
    by (simp_all add: two_reads_sizes)
  from r n s2 have "\<exists>st. main_loop ''1.1'' init [Good read_AC, Good read_G] = Inr st
          \<and> nseq st = 2 \<and> nseq st - nlen st 0 = 2 \<and> nseq st - nlen st 0 - nlen st 1 = 1"
    by (auto simp del: main_loop.simps)
  with o h t show ?thesis by (simp del: main_loop.simps)
qed

section \<open>The average quality\<close>

text \<open>
  Claim C3. The value printed in the column \<^verbatim>\<open>AQ\<close>, on the line \<^verbatim>\<open>Total\<close> and on the line of
  every position, is \<open>-10 log\<^sub>1\<^sub>0\<close> of the mean error probability of its scope: the sum over
  the quality values \<open>q\<close> of \<open>n\<^sub>q 10\<^sup>-\<^sup>q\<^sup>/\<^sup>1\<^sup>0\<close>, divided by the number of symbols in scope. The
  scope of \<^verbatim>\<open>Total\<close> is every symbol of every record, the scope of position \<open>i\<close> the symbols
  at \<open>i\<close> of the records longer than \<open>i\<close>. When all quality values in scope are the same
  \<open>q\<close>, with error probability \<open>p = 10\<^sup>-\<^sup>q\<^sup>/\<^sup>1\<^sup>0\<close>, the value is \<open>-10 log\<^sub>1\<^sub>0 p\<close>.

  The statement gives the standard output of a run over records shorter than
  \<^verbatim>\<open>MAX_LENGTH\<close>, with as many quality values as symbols, at least one of them not empty: the
  last token of the line \<^verbatim>\<open>Total\<close> and of the line of every position is that value. The
  column \<^verbatim>\<open>AQ\<close> is computed in exact real arithmetic.
\<close>

theorem average_quality:
  assumes "\<forall>r\<in>set rs. len r < MAX_LENGTH \<and> aligned r" and "sum_list (map len rs) \<noteq> 0"
  shows "out (main \<lparr>args = [], fopen = f, stdin = map Good rs, PACKAGE_VERSION = ver\<rparr>) =
           report_head rs
           @ percents (symbols_all rs) (sum_list (map len rs))
           @ entry_tokens
               (\<lambda>q. lrint (per_mille (count_list (scope_all rs) q) (sum_list (map len rs))))
               (max_quality rs)
           @ [Lit '' '', Flt 4 1 (Some (- 10 * log 10 (mean_error (scope_all rs))))]
           @ concat (map (\<lambda>i. [Lit ''\<newline>base '', Dec 2 (Some (int i + 1))]
                              @ percents (symbols_at rs i) (longer rs i)
                              @ entry_tokens
                                  (\<lambda>q. lrint (per_mille (count_list (scope_at rs i) q) (longer rs i)))
                                  (max_quality rs)
                              @ [Lit '' '',
                                 Flt 4 1 (Some (- 10 * log 10 (mean_error (scope_at rs i))))])
                       [0..<max_length rs])
           @ [Lit ''\<newline>'']
         \<and> (\<forall>q. (\<forall>x\<in>set (scope_all rs). x = q) \<longrightarrow>
                - 10 * log 10 (mean_error (scope_all rs)) = - 10 * log 10 (10 powr (- real q / 10)))
         \<and> (\<forall>i<max_length rs. \<forall>q. (\<forall>x\<in>set (scope_at rs i). x = q) \<longrightarrow>
                - 10 * log 10 (mean_error (scope_at rs i))
                  = - 10 * log 10 (10 powr (- real q / 10)))"
proof (intro conjI allI impI)
  have a: "\<forall>r\<in>set rs. len r \<le> MAX_LENGTH" and al: "\<forall>r\<in>set rs. aligned r"
    using assms(1) by auto
  show "out (main \<lparr>args = [], fopen = f, stdin = map Good rs, PACKAGE_VERSION = ver\<rparr>) =
           report_head rs
           @ percents (symbols_all rs) (sum_list (map len rs))
           @ entry_tokens
               (\<lambda>q. lrint (per_mille (count_list (scope_all rs) q) (sum_list (map len rs))))
               (max_quality rs)
           @ [Lit '' '', Flt 4 1 (Some (- 10 * log 10 (mean_error (scope_all rs))))]
           @ concat (map (\<lambda>i. [Lit ''\<newline>base '', Dec 2 (Some (int i + 1))]
                              @ percents (symbols_at rs i) (longer rs i)
                              @ entry_tokens
                                  (\<lambda>q. lrint (per_mille (count_list (scope_at rs i) q) (longer rs i)))
                                  (max_quality rs)
                              @ [Lit '' '',
                                 Flt 4 1 (Some (- 10 * log 10 (mean_error (scope_at rs i))))])
                       [0..<max_length rs])
           @ [Lit ''\<newline>'']"
    using out_main_of_input [OF assms, of f ver]
    by (simp only: total_line_def position_line_def [abs_def] spec_AQ_def append_assoc)
  show "- 10 * log 10 (mean_error (scope_all rs)) = - 10 * log 10 (10 powr (- real q / 10))"
    if u: "\<forall>x\<in>set (scope_all rs). x = q" for q
  proof -
    have "concat (map quals rs) \<noteq> []" using assms(2) by (rule total_nonzero)
    then have "scope_all rs \<noteq> []" by (simp only: aligned_scope_all [OF al] simp_thms)
    from spec_AQ_uniform [OF this u] show ?thesis by (simp only: spec_AQ_def)
  qed
  show "- 10 * log 10 (mean_error (scope_at rs i)) = - 10 * log 10 (10 powr (- real q / 10))"
    if i: "i < max_length rs" and u: "\<forall>x\<in>set (scope_at rs i). x = q" for i q
  proof -
    have "i < lengthMax (fold counted rs init)" using i by (simp only: final_max_length)
    then have "0 < longer rs i" by (rule final_position_nonempty)
    then have "scope_at rs i \<noteq> []" by (simp only: length_scope_at [symmetric]) simp
    from spec_AQ_uniform [OF this u] show ?thesis by (simp only: spec_AQ_def)
  qed
qed

theorem average_quality_witness:
  "len read_AC < MAX_LENGTH \<and> aligned read_AC \<and> len read_G < MAX_LENGTH \<and> aligned read_G
   \<and> sum_list (map len [read_AC, read_G]) \<noteq> 0
   \<and> out (main \<lparr>args = [], fopen = (\<lambda>_. None), stdin = [Good read_AC, Good read_G],
                PACKAGE_VERSION = ''1.1''\<rparr>) =
       report_head [read_AC, read_G]
       @ percents (symbols_all [read_AC, read_G]) 3
       @ entry_tokens (\<lambda>q. lrint (per_mille (count_list [1, 0, 0] q) 3)) 1
       @ [Lit '' '', Flt 4 1 (Some (- 10 * log 10 ((10 powr (- 1 / 10) + 2) / 3)))]
       @ [Lit ''\<newline>base '', Dec 2 (Some 1)]
       @ percents [idx_A, idx_G] 2
       @ entry_tokens (\<lambda>q. lrint (per_mille (count_list [1, 0] q) 2)) 1
       @ [Lit '' '', Flt 4 1 (Some (- 10 * log 10 ((10 powr (- 1 / 10) + 1) / 2)))]
       @ [Lit ''\<newline>base '', Dec 2 (Some 2)]
       @ percents [idx_C] 1
       @ entry_tokens (\<lambda>q. lrint (per_mille (count_list [0] q) 1)) 1
       @ [Lit '' '', Flt 4 1 (Some 0)]
       @ [Lit ''\<newline>'']"
proof -
  let ?rs = "[read_AC, read_G]"
  have h: "\<forall>r\<in>set ?rs. len r < MAX_LENGTH \<and> aligned r" by (rule two_reads_accepted)
  have t: "sum_list (map len ?rs) \<noteq> 0" unfolding two_reads_sizes by simp
  note inst = average_quality [OF h t, of "\<lambda>_. None" "''1.1''"]
  have "out (main \<lparr>args = [], fopen = (\<lambda>_. None), stdin = [Good read_AC, Good read_G],
                PACKAGE_VERSION = ''1.1''\<rparr>) =
       report_head [read_AC, read_G]
       @ percents (symbols_all [read_AC, read_G]) 3
       @ entry_tokens (\<lambda>q. lrint (per_mille (count_list [1, 0, 0] q) 3)) 1
       @ [Lit '' '', Flt 4 1 (Some (- 10 * log 10 ((10 powr (- 1 / 10) + 2) / 3)))]
       @ [Lit ''\<newline>base '', Dec 2 (Some 1)]
       @ percents [idx_A, idx_G] 2
       @ entry_tokens (\<lambda>q. lrint (per_mille (count_list [1, 0] q) 2)) 1
       @ [Lit '' '', Flt 4 1 (Some (- 10 * log 10 ((10 powr (- 1 / 10) + 1) / 2)))]
       @ [Lit ''\<newline>base '', Dec 2 (Some 2)]
       @ percents [idx_C] 1
       @ entry_tokens (\<lambda>q. lrint (per_mille (count_list [0] q) 1)) 1
       @ [Lit '' '', Flt 4 1 (Some 0)]
       @ [Lit ''\<newline>'']"
    using conjunct1 [OF inst]
    by (simp add: two_reads_sizes two_reads_scopes upt_small two_reads_mean_error)
  with h t show ?thesis by simp
qed

section \<open>The per-mille entries\<close>

text \<open>
  Claim C4, as the specification states it: every per-mille entry is \<^verbatim>\<open>1000 * count / denom\<close>
  rounded to the nearest integer, halfway cases away from zero. The code rounds with
  \<^verbatim>\<open>lrint\<close> (line 134), which takes the even neighbour in a halfway case. For one record of 16
  symbols, one of them of quality 1, the entries of the line \<^verbatim>\<open>Total\<close> are 938 and 62: the
  second is \<^verbatim>\<open>lrint (62.5)\<close>, and rounding away from zero gives 63. All the divisions and
  products involved are exact in binary floating point.
\<close>

theorem permille_tie_rounds_to_even:
  "take 4 (drop 32 (out (main \<lparr>args = [], fopen = (\<lambda>_. None), stdin = [Good tie_record],
                               PACKAGE_VERSION = ''1.1''\<rparr>)))
     = [Lit '' '', Dec 3 (Some 938), Lit '' '', Dec 3 (Some 62)]
   \<and> out (main \<lparr>args = [], fopen = (\<lambda>_. None), stdin = [Good tie_record],
                PACKAGE_VERSION = ''1.1''\<rparr>) ! 35
       \<noteq> Dec 3 (Some (spec_round (1000 * (1 / 16))))"
proof -
  have d: "to_double 1 = 1" "to_double 15 = 15" "to_double 16 = 16" "to_double 1000 = 1000"
    "to_double (1 / 16) = 1 / 16" "to_double (15 / 16) = 15 / 16"
    "to_double (125 / 2) = 125 / 2" "to_double (1875 / 2) = 1875 / 2"
    using to_double_int [of 1] to_double_int [of 15] to_double_int [of 16]
      to_double_int [of 1000] to_double_dyadic [of 1 4] to_double_dyadic [of 15 4]
      to_double_dyadic [of 125 1] to_double_dyadic [of 1875 1]
    by simp_all
  have z: "to_double 0 = 0" by (rule to_double_zero)
  show ?thesis
    by (simp add: main_def tie_record_def process_def accumulate_def Let_def len_def
        MAX_LENGTH_def init_def tally_loop.simps tally_def report_def summary_def
        numeric_section_def head_loop.simps composition_def quality_row_def qual_loop.simps
        permille_def permille_value_def d z lrint_def spec_round_def)
qed

text \<open>
  Claim C4, amended: every per-mille entry, on the line \<^verbatim>\<open>Total\<close> and on the line of every
  position, for each quality value from 0 to the largest quality value read, is
  \<^verbatim>\<open>1000 * count / denom\<close>, computed in double precision, rounded to the nearest integer, a
  halfway case to the even neighbour; \<^verbatim>\<open>count\<close> is the number of symbols of that quality
  value in the scope of the line and \<^verbatim>\<open>denom\<close> the total length, or the number of records
  longer than the position.

  The statement gives the standard output of a run over records shorter than
  \<^verbatim>\<open>MAX_LENGTH\<close>, with as many quality values as symbols, at least one of them not empty.
\<close>

theorem permille_entries_ties_to_even:
  assumes "\<forall>r\<in>set rs. len r < MAX_LENGTH \<and> aligned r" and "sum_list (map len rs) \<noteq> 0"
  shows "\<exists>E P.
           (\<forall>q. nearest_even
                   (to_double (1000 * to_double (to_double (real (count_list (scope_all rs) q))
                                                  / to_double (real (sum_list (map len rs))))))
                   (E q))
         \<and> (\<forall>i q. nearest_even
                     (to_double (1000 * to_double (to_double (real (count_list (scope_at rs i) q))
                                                    / to_double (real (longer rs i)))))
                     (P i q))
         \<and> out (main \<lparr>args = [], fopen = f, stdin = map Good rs, PACKAGE_VERSION = ver\<rparr>) =
             report_head rs
             @ percents (symbols_all rs) (sum_list (map len rs))
             @ entry_tokens E (max_quality rs)
             @ [Lit '' '', Flt 4 1 (Some (spec_AQ (scope_all rs)))]
             @ concat (map (\<lambda>i. [Lit ''\<newline>base '', Dec 2 (Some (int i + 1))]
                                @ percents (symbols_at rs i) (longer rs i)
                                @ entry_tokens (P i) (max_quality rs)
                                @ [Lit '' '', Flt 4 1 (Some (spec_AQ (scope_at rs i)))])
                         [0..<max_length rs])
             @ [Lit ''\<newline>'']"
proof (intro exI conjI allI)
  show "out (main \<lparr>args = [], fopen = f, stdin = map Good rs, PACKAGE_VERSION = ver\<rparr>) =
             report_head rs
             @ percents (symbols_all rs) (sum_list (map len rs))
             @ entry_tokens
                 (\<lambda>q. lrint (per_mille (count_list (scope_all rs) q) (sum_list (map len rs))))
                 (max_quality rs)
             @ [Lit '' '', Flt 4 1 (Some (spec_AQ (scope_all rs)))]
             @ concat (map (\<lambda>i. [Lit ''\<newline>base '', Dec 2 (Some (int i + 1))]
                                @ percents (symbols_at rs i) (longer rs i)
                                @ entry_tokens
                                    (\<lambda>q. lrint (per_mille (count_list (scope_at rs i) q)
                                                   (longer rs i)))
                                    (max_quality rs)
                                @ [Lit '' '', Flt 4 1 (Some (spec_AQ (scope_at rs i)))])
                         [0..<max_length rs])
             @ [Lit ''\<newline>'']"
    using out_main_of_input [OF assms, of f ver]
    by (simp only: total_line_def position_line_def [abs_def] append_assoc)
  show "nearest_even
          (to_double (1000 * to_double (to_double (real (count_list (scope_all rs) q))
                                         / to_double (real (sum_list (map len rs))))))
          (lrint (per_mille (count_list (scope_all rs) q) (sum_list (map len rs))))" for q
    unfolding per_mille_def by (rule lrint_nearest_even)
  show "nearest_even
          (to_double (1000 * to_double (to_double (real (count_list (scope_at rs i) q))
                                         / to_double (real (longer rs i)))))
          (lrint (per_mille (count_list (scope_at rs i) q) (longer rs i)))" for i q
    unfolding per_mille_def by (rule lrint_nearest_even)
qed

theorem permille_entries_ties_to_even_witness:
  "len tie_record < MAX_LENGTH \<and> aligned tie_record
   \<and> sum_list (map len [tie_record]) \<noteq> 0
   \<and> (\<exists>P. out (main \<lparr>args = [], fopen = (\<lambda>_. None), stdin = [Good tie_record],
                     PACKAGE_VERSION = ''1.1''\<rparr>) =
             report_head [tie_record]
             @ percents (symbols_all [tie_record]) 16
             @ [Lit '' '', Dec 3 (Some 938), Lit '' '', Dec 3 (Some 62)]
             @ [Lit '' '', Flt 4 1 (Some (spec_AQ (scope_all [tie_record])))]
             @ concat (map (\<lambda>i. [Lit ''\<newline>base '', Dec 2 (Some (int i + 1))]
                                @ percents (symbols_at [tie_record] i) (longer [tie_record] i)
                                @ entry_tokens (P i) 1
                                @ [Lit '' '', Flt 4 1 (Some (spec_AQ (scope_at [tie_record] i)))])
                         [0..<16])
             @ [Lit ''\<newline>''])"
proof -
  let ?rs = "[tie_record]"
  have h: "\<forall>r\<in>set ?rs. len r < MAX_LENGTH \<and> aligned r" by (rule tie_record_accepted)
  have t: "sum_list (map len ?rs) \<noteq> 0" unfolding tie_record_sizes by simp
  from permille_entries_ties_to_even [OF h t, of "\<lambda>_. None" "''1.1''"] obtain E P where
    x: "(\<forall>q. nearest_even
              (to_double (1000 * to_double (to_double (real (count_list (scope_all ?rs) q))
                                             / to_double (real (sum_list (map len ?rs))))))
              (E q))
      \<and> (\<forall>i q. nearest_even
                (to_double (1000 * to_double (to_double (real (count_list (scope_at ?rs i) q))
                                               / to_double (real (longer ?rs i)))))
                (P i q))
      \<and> out (main \<lparr>args = [], fopen = (\<lambda>_. None), stdin = map Good ?rs,
                       PACKAGE_VERSION = ''1.1''\<rparr>) =
             report_head ?rs
             @ percents (symbols_all ?rs) (sum_list (map len ?rs))
             @ entry_tokens E (max_quality ?rs)
             @ [Lit '' '', Flt 4 1 (Some (spec_AQ (scope_all ?rs)))]
             @ concat (map (\<lambda>i. [Lit ''\<newline>base '', Dec 2 (Some (int i + 1))]
                                @ percents (symbols_at ?rs i) (longer ?rs i)
                                @ entry_tokens (P i) (max_quality ?rs)
                                @ [Lit '' '', Flt 4 1 (Some (spec_AQ (scope_at ?rs i)))])
                         [0..<max_length ?rs])
             @ [Lit ''\<newline>'']"
    by (elim exE) (rule that)
  note n = conjunct1 [OF x] and o = conjunct2 [OF conjunct2 [OF x]]
  have "nearest_even (per_mille 15 16) (E 0)"
    using n [rule_format, of 0] by (simp only: tie_record_sizes per_mille_def)
  then have "nearest_even (1875 / 2) (E 0)" by (simp only: per_mille_tie)
  moreover have "nearest_even (1875 / 2) 938" by (simp add: nearest_even_def)
  ultimately have e0: "E 0 = 938" by (rule nearest_even_unique)
  have "nearest_even (per_mille 1 16) (E 1)"
    using n [rule_format, of 1] by (simp only: tie_record_sizes per_mille_def)
  then have "nearest_even (125 / 2) (E 1)" by (simp only: per_mille_tie)
  moreover have "nearest_even (125 / 2) 62" by (simp add: nearest_even_def)
  ultimately have e1: "E 1 = 62" by (rule nearest_even_unique)
  from e1 have e1': "E (Suc 0) = 62" by simp
  have e: "entry_tokens E 1 = [Lit '' '', Dec 3 (Some 938), Lit '' '', Dec 3 (Some 62)]"
    by (simp add: entry_tokens_def upt_small e0 e1')
  have o3: "out (main \<lparr>args = [], fopen = (\<lambda>_. None), stdin = [Good tie_record],
                     PACKAGE_VERSION = ''1.1''\<rparr>) =
             report_head [tie_record]
             @ percents (symbols_all [tie_record]) 16
             @ [Lit '' '', Dec 3 (Some 938), Lit '' '', Dec 3 (Some 62)]
             @ [Lit '' '', Flt 4 1 (Some (spec_AQ (scope_all [tie_record])))]
             @ concat (map (\<lambda>i. [Lit ''\<newline>base '', Dec 2 (Some (int i + 1))]
                                @ percents (symbols_at [tie_record] i) (longer [tie_record] i)
                                @ entry_tokens (P i) 1
                                @ [Lit '' '', Flt 4 1 (Some (spec_AQ (scope_at [tie_record] i)))])
                         [0..<16])
             @ [Lit ''\<newline>'']"
    by (rule o [unfolded tie_record_sizes e, unfolded list.map])
  have "\<exists>P. out (main \<lparr>args = [], fopen = (\<lambda>_. None), stdin = [Good tie_record],
                     PACKAGE_VERSION = ''1.1''\<rparr>) =
             report_head [tie_record]
             @ percents (symbols_all [tie_record]) 16
             @ [Lit '' '', Dec 3 (Some 938), Lit '' '', Dec 3 (Some 62)]
             @ [Lit '' '', Flt 4 1 (Some (spec_AQ (scope_all [tie_record])))]
             @ concat (map (\<lambda>i. [Lit ''\<newline>base '', Dec 2 (Some (int i + 1))]
                                @ percents (symbols_at [tie_record] i) (longer [tie_record] i)
                                @ entry_tokens (P i) 1
                                @ [Lit '' '', Flt 4 1 (Some (spec_AQ (scope_at [tie_record] i)))])
                         [0..<16])
             @ [Lit ''\<newline>'']"
    by (intro exI) (rule o3)
  moreover have "len tie_record < MAX_LENGTH" "aligned tie_record" using h by simp_all
  moreover note t
  ultimately show ?thesis by (intro conjI)
qed

section \<open>Fatal records\<close>

text \<open>
  Claim C5. A record longer than \<^verbatim>\<open>MAX_LENGTH\<close> ends the run, whatever number of accepted
  records came before it and whatever follows: the exit code is \<^verbatim>\<open>EXIT_FAILURE\<close>, standard
  output holds the usage text and no report, and the message on standard error gives the
  length of the record and \<^verbatim>\<open>MAX_LENGTH\<close>.
\<close>

theorem too_long_record_is_fatal:
  assumes "\<forall>x\<in>set rs. len x \<le> MAX_LENGTH" and "MAX_LENGTH < len r"
  shows "main \<lparr>args = [], fopen = f, stdin = map Good rs @ Good r # rest,
               PACKAGE_VERSION = ver\<rparr> =
           \<lparr>code = EXIT_FAILURE, out = usage ver,
            err = [Lit ''read '', Str (id' r), Lit '' length = '', Dec 0 (Some (int (len r))),
                   Lit '' longer than MAX_LENGTH = '', Dec 0 (Some 100000),
                   Lit ''; edit and recompile with larger MAX_LENGTH\<newline>'']\<rparr>"
proof -
  have "lengthMax (fold counted rs init) \<le> MAX_LENGTH"
    using assms(1) by (rule fold_lengthMax_le) (simp add: init_def)
  then show ?thesis
    using assms
    by (simp add: main_stdin process_def main_loop_append accumulate_long print_usage_def)
      (simp add: MAX_LENGTH_def)
qed

theorem too_long_record_is_fatal_witness:
  "len \<lparr>id' = ''r1'', seq = [Base_A, Base_C], qval = [30, 31]\<rparr> \<le> MAX_LENGTH
   \<and> MAX_LENGTH < len \<lparr>id' = ''r2'', seq = replicate 100001 Base_T, qval = replicate 100001 2\<rparr>
   \<and> main \<lparr>args = [], fopen = (\<lambda>_. None),
            stdin = [Good \<lparr>id' = ''r1'', seq = [Base_A, Base_C], qval = [30, 31]\<rparr>,
                     Good \<lparr>id' = ''r2'', seq = replicate 100001 Base_T,
                           qval = replicate 100001 2\<rparr>,
                     Good \<lparr>id' = ''r3'', seq = [Base_G], qval = [20]\<rparr>],
            PACKAGE_VERSION = ''1.1''\<rparr> =
       \<lparr>code = EXIT_FAILURE, out = usage ''1.1'',
        err = [Lit ''read '', Str ''r2'', Lit '' length = '', Dec 0 (Some 100001),
               Lit '' longer than MAX_LENGTH = '', Dec 0 (Some 100000),
               Lit ''; edit and recompile with larger MAX_LENGTH\<newline>'']\<rparr>"
proof -
  let ?r1 = "\<lparr>id' = ''r1'', seq = [Base_A, Base_C], qval = [30, 31]\<rparr>"
  let ?r2 = "\<lparr>id' = ''r2'', seq = replicate 100001 Base_T, qval = replicate 100001 2\<rparr>"
  let ?r3 = "\<lparr>id' = ''r3'', seq = [Base_G], qval = [20]\<rparr>"
  have h1: "\<forall>x\<in>set [?r1]. len x \<le> MAX_LENGTH" by (simp add: len_def MAX_LENGTH_def)
  have h2: "MAX_LENGTH < len ?r2" by (simp add: len_def MAX_LENGTH_def)
  have l: "len ?r2 = 100001" by (simp add: len_def)
  from too_long_record_is_fatal [OF h1 h2, of "\<lambda>_. None" "[Good ?r3]" "''1.1''"] h1 h2 l
  show ?thesis by simp
qed

text \<open>
  Claim C6. When the reader reports a malformed record, after any number of accepted
  records, the run ends with \<^verbatim>\<open>EXIT_FAILURE\<close>; standard output holds the usage text only, so
  nothing of the counters gathered so far is reported.
\<close>

theorem malformed_record_aborts:
  assumes "\<forall>x\<in>set rs. len x \<le> MAX_LENGTH"
  shows "main \<lparr>args = [], fopen = f, stdin = map Good rs @ Malformed # rest,
               PACKAGE_VERSION = ver\<rparr> =
           \<lparr>code = EXIT_FAILURE, out = usage ver, err = []\<rparr>"
  using assms by (simp add: main_stdin process_def main_loop_append print_usage_def)

theorem malformed_record_aborts_witness:
  "len \<lparr>id' = ''r1'', seq = [Base_A, Base_C], qval = [30, 31]\<rparr> \<le> MAX_LENGTH
   \<and> main \<lparr>args = [], fopen = (\<lambda>_. None),
            stdin = [Good \<lparr>id' = ''r1'', seq = [Base_A, Base_C], qval = [30, 31]\<rparr>, Malformed,
                     Good \<lparr>id' = ''r3'', seq = [Base_G], qval = [20]\<rparr>],
            PACKAGE_VERSION = ''1.1''\<rparr> =
       \<lparr>code = EXIT_FAILURE, out = usage ''1.1'', err = []\<rparr>"
proof -
  let ?r1 = "\<lparr>id' = ''r1'', seq = [Base_A, Base_C], qval = [30, 31]\<rparr>"
  let ?r3 = "\<lparr>id' = ''r3'', seq = [Base_G], qval = [20]\<rparr>"
  have h1: "\<forall>x\<in>set [?r1]. len x \<le> MAX_LENGTH" by (simp add: len_def MAX_LENGTH_def)
  from malformed_record_aborts [OF h1, of "\<lambda>_. None" "[Good ?r3]" "''1.1''"] h1
  show ?thesis by simp
qed

section \<open>Empty input and zero denominators\<close>

text \<open>
  Claim C7. On an empty stream the report is the line with 0 sequences and 0 total
  length, and nothing of the numeric section. For every input no printed number comes
  from a division by zero (or from a logarithm or a square root outside its domain): the
  average is printed only when \<^verbatim>\<open>nseq\<close> is not 0, the numeric section only when \<^verbatim>\<open>total\<close> is
  not 0, and the denominator of a position line is never 0.
\<close>

theorem no_zero_denominator:
  "main \<lparr>args = [], fopen = f, stdin = [], PACKAGE_VERSION = ver\<rparr> =
     \<lparr>code = EXIT_SUCCESS,
      out = [Dec 0 (Some 0), Lit '' sequences, '', Dec 0 (Some 0), Lit '' total length'',
             Lit ''\<newline>''],
      err = []\<rparr>
   \<and> (\<forall>t\<in>set (out (main e)). finite_tok t)"
proof
  show "main \<lparr>args = [], fopen = f, stdin = [], PACKAGE_VERSION = ver\<rparr> =
     \<lparr>code = EXIT_SUCCESS,
      out = [Dec 0 (Some 0), Lit '' sequences, '', Dec 0 (Some 0), Lit '' total length'',
             Lit ''\<newline>''],
      err = []\<rparr>"
    by (simp add: main_def process_def report_def summary_def init_def)
  show "\<forall>t\<in>set (out (main e)). finite_tok t"
    using finite_process finite_usage
    by (simp add: main_def print_usage_def split: list.split option.split)
qed

theorem no_zero_denominator_witness:
  "Flt 0 2 (ddiv 3 2)
     \<in> set (out (main \<lparr>args = [], fopen = (\<lambda>_. None),
                       stdin = [Good \<lparr>id' = ''r1'', seq = [Base_A, Base_C], qval = [30, 31]\<rparr>,
                                Good \<lparr>id' = ''r2'', seq = [Base_G], qval = [20]\<rparr>],
                       PACKAGE_VERSION = ''1.1''\<rparr>))
   \<and> finite_tok (Flt 0 2 (ddiv 3 2))"
proof -
  let ?e = "\<lparr>args = [], fopen = (\<lambda>_. None),
             stdin = [Good \<lparr>id' = ''r1'', seq = [Base_A, Base_C], qval = [30, 31]\<rparr>,
                      Good \<lparr>id' = ''r2'', seq = [Base_G], qval = [20]\<rparr>],
             PACKAGE_VERSION = ''1.1''\<rparr>"
  have f: "to_float 3 = 3" "to_float 2 = 2" "to_float (3 / 2) = 3 / 2"
    using to_float_int [of 3] to_float_int [of 2] to_float_dyadic [of 3 1] by simp_all
  have m: "Flt 0 2 (ddiv 3 2) \<in> set (out (main ?e))"
    by (simp add: main_def process_def accumulate_def Let_def len_def MAX_LENGTH_def init_def
        tally_loop.simps tally_def report_def summary_def ddiv_def div_float_def f)
  from conjunct2 [OF no_zero_denominator, rule_format, OF m] m
  show ?thesis by (intro conjI)
qed

section \<open>The counters after the read loop\<close>


section \<open>The average length\<close>

text \<open>
  Claim C9, as the specification states it: with at least one record, the average length
  is \<^verbatim>\<open>total / nseq\<close> printed with one decimal place. Line 120 prints it with \<^verbatim>\<open>%.2f\<close>: for one
  record of one symbol the token is the value 1 with two decimal places, not with one. And
  the value is the quotient of a division in single precision: for three records of
  99999, 99999 and 99998 symbols it is 99998.6640625, which is not 299996 / 3 and is
  printed as 99998.66, where 299996 / 3 would give 99998.67.
\<close>

theorem average_printed_with_two_decimals:
  "out (main \<lparr>args = [], fopen = (\<lambda>_. None),
              stdin = [Good \<lparr>id' = ''r1'', seq = [Base_A], qval = [30]\<rparr>],
              PACKAGE_VERSION = ''1.1''\<rparr>) ! 5
     = Flt 0 2 (Some 1)
   \<and> out (main \<lparr>args = [], fopen = (\<lambda>_. None),
                stdin = [Good \<lparr>id' = ''r1'', seq = [Base_A], qval = [30]\<rparr>],
                PACKAGE_VERSION = ''1.1''\<rparr>) ! 5
     \<noteq> Flt 0 1 (Some 1)
   \<and> out (main \<lparr>args = [], fopen = (\<lambda>_. None),
                stdin = [Good (uniform_read 99999), Good (uniform_read 99999),
                         Good (uniform_read 99998)],
                PACKAGE_VERSION = ''1.1''\<rparr>) ! 5
     = Flt 0 2 (Some (12799829 / 128))
   \<and> out (main \<lparr>args = [], fopen = (\<lambda>_. None),
                stdin = [Good (uniform_read 99999), Good (uniform_read 99999),
                         Good (uniform_read 99998)],
                PACKAGE_VERSION = ''1.1''\<rparr>) ! 5
     \<noteq> Flt 0 2 (Some (299996 / 3))"
proof -
  have f: "to_float 1 = 1" using to_float_int [of 1] by simp
  have one: "out (main \<lparr>args = [], fopen = (\<lambda>_. None),
              stdin = [Good \<lparr>id' = ''r1'', seq = [Base_A], qval = [30]\<rparr>],
              PACKAGE_VERSION = ''1.1''\<rparr>) ! 5
     = Flt 0 2 (Some 1)"
    by (simp add: main_def process_def accumulate_def Let_def len_def MAX_LENGTH_def init_def
        tally_loop.simps tally_def report_def summary_def div_float_def f)
  let ?rs = "[uniform_read 99999, uniform_read 99999, uniform_read 99998]"
  have a: "\<forall>r\<in>set ?rs. len r \<le> MAX_LENGTH"
    by (simp add: uniform_read_def len_def MAX_LENGTH_def)
  have s: "real (sum_list (map len ?rs)) = 299996" "real (length ?rs) = 3"
    by (simp_all add: uniform_read_def len_def)
  have ne: "?rs \<noteq> []" by simp
  have k: "out (main \<lparr>args = [], fopen = (\<lambda>_. None), stdin = map Good ?rs,
                   PACKAGE_VERSION = ''1.1''\<rparr>) ! 5
          = Flt 0 2 (Some (to_float (to_float (real (sum_list (map len ?rs)))
                                      / to_float (real (length ?rs)))))"
    by (simp only: main_good [OF a] outcome.simps report_def average_token [OF ne])
  have three: "out (main \<lparr>args = [], fopen = (\<lambda>_. None),
                stdin = [Good (uniform_read 99999), Good (uniform_read 99999),
                         Good (uniform_read 99998)],
                PACKAGE_VERSION = ''1.1''\<rparr>) ! 5
     = Flt 0 2 (Some (12799829 / 128))"
    using k [unfolded s average_single_precision] by (simp only: list.map)
  from one three show ?thesis by simp
qed

text \<open>
  Claim C9, amended: with at least one record, the first line of the report gives the
  number of records, the total length, and the average length, which is the quotient of
  \<^verbatim>\<open>total\<close> and \<^verbatim>\<open>nseq\<close> computed in single precision (both are converted to \<^verbatim>\<open>float\<close> and the
  division is rounded to \<^verbatim>\<open>float\<close>) and printed with two decimal places; then the largest
  length. The statement is about runs over records shorter than \<^verbatim>\<open>MAX_LENGTH\<close>.
\<close>

theorem average_length_two_decimals:
  assumes "\<forall>r\<in>set rs. len r < MAX_LENGTH" and "rs \<noteq> []"
  shows "\<exists>rest. main \<lparr>args = [], fopen = f, stdin = map Good rs, PACKAGE_VERSION = ver\<rparr> =
           \<lparr>code = EXIT_SUCCESS,
            out = [Dec 0 (Some (int (length rs))), Lit '' sequences, '',
                   Dec 0 (Some (int (sum_list (map len rs)))), Lit '' total length'', Lit '', '',
                   Flt 0 2 (Some (to_float (to_float (real (sum_list (map len rs)))
                                             / to_float (real (length rs))))),
                   Lit '' average, '', Dec 0 (Some (int (Max (len ` set rs)))), Lit '' max'',
                   Lit ''\<newline>''] @ rest,
            err = []\<rparr>"
proof -
  have a: "\<forall>r\<in>set rs. len r \<le> MAX_LENGTH" using assms(1) by auto
  have "Max (insert 0 (len ` set rs)) = Max (len ` set rs)"
    using assms(2) by simp
  then have m: "max_length rs = Max (len ` set rs)" by (simp only: max_length_def)
  show ?thesis
    by (simp add: main_good [OF a] report_def summary_of_input [OF assms(2)] m)
qed

theorem average_length_two_decimals_witness:
  "len (uniform_read 99999) < MAX_LENGTH \<and> len (uniform_read 99998) < MAX_LENGTH
   \<and> [uniform_read 99999, uniform_read 99999, uniform_read 99998] \<noteq> []
   \<and> (\<exists>rest. main \<lparr>args = [], fopen = (\<lambda>_. None),
                     stdin = [Good (uniform_read 99999), Good (uniform_read 99999),
                              Good (uniform_read 99998)],
                     PACKAGE_VERSION = ''1.1''\<rparr> =
           \<lparr>code = EXIT_SUCCESS,
            out = [Dec 0 (Some 3), Lit '' sequences, '', Dec 0 (Some 299996),
                   Lit '' total length'', Lit '', '', Flt 0 2 (Some (12799829 / 128)),
                   Lit '' average, '', Dec 0 (Some 99999), Lit '' max'', Lit ''\<newline>''] @ rest,
            err = []\<rparr>)"
proof -
  let ?rs = "[uniform_read 99999, uniform_read 99999, uniform_read 99998]"
  have h: "\<forall>r\<in>set ?rs. len r < MAX_LENGTH"
    by (simp add: uniform_read_def len_def MAX_LENGTH_def)
  have ne: "?rs \<noteq> []" by simp
  have l: "len (uniform_read 99999) = 99999" "len (uniform_read 99998) = 99998"
    by (simp_all add: uniform_read_def len_def)
  from average_length_two_decimals [OF h ne, of "\<lambda>_. None" "''1.1''"] h
  show ?thesis using average_single_precision by (simp add: l)
qed

section \<open>Array bounds\<close>

text \<open>
  Claim C10. Every index used while a record is folded into the counters should lie
  below \<^verbatim>\<open>MAX_LENGTH\<close>, also for a record of exactly \<^verbatim>\<open>MAX_LENGTH\<close> symbols. The code accepts
  such a record (line 100 tests \<^verbatim>\<open>length > MAX_LENGTH\<close>, and the run ends with success), and
  line 96 increments \<^verbatim>\<open>nlen[length]\<close>, one cell past the end of \<^verbatim>\<open>nlen\<close>. The loop over the
  symbols stays in bounds.
\<close>

theorem nlen_index_out_of_bounds:
  "len full_record = MAX_LENGTH
   \<and> \<not> oob init
   \<and> (case accumulate ''1.1'' full_record init of
        Inl e \<Rightarrow> False
      | Inr st \<Rightarrow> oob st)
   \<and> \<not> oob (tally_loop full_record 0 init)
   \<and> code (main \<lparr>args = [], fopen = (\<lambda>_. None), stdin = [Good full_record],
                 PACKAGE_VERSION = ''1.1''\<rparr>) = EXIT_SUCCESS"
proof -
  have l: "len full_record = MAX_LENGTH"
    by (simp add: len_def MAX_LENGTH_def full_record_def)
  then have "accumulate ''1.1'' full_record init = Inr (counted full_record init)"
    by (intro accumulate_ok) simp
  moreover have "oob (counted full_record init)" using l by (simp only: counted_oob) simp
  moreover have "\<not> oob init" by (simp add: init_def)
  moreover have "\<not> oob (tally_loop full_record 0 init)"
    using l by (simp only: tally_loop_oob) (simp add: init_def)
  moreover have "code (main \<lparr>args = [], fopen = (\<lambda>_. None), stdin = map Good [full_record],
                            PACKAGE_VERSION = ''1.1''\<rparr>) = EXIT_SUCCESS"
    using l by (subst main_good) simp_all
  ultimately show ?thesis using l by simp
qed

end
